theory Spec2Isabelle
  imports Main "HOL-Library.Word" "HOL-Library.Signed_Division"
begin

section \<open>The bencode document tree\<close>

text \<open>
  A node of the tree is one of the four subclasses of \<open>Item\<close>. A child pointer
  (\<open>Item::Ptr\<close>) may be \<open>NULL\<close>, so every slot of a List and both halves of a
  Dictionary element are \<open>Item option\<close>, with \<open>None\<close> for \<open>NULL\<close>.
  \<open>intmax_t\<close> is taken to be 64 bits wide. Byte counts and the \<open>uint32_t\<close>
  component counters are natural numbers: the model assumes that a tree has fewer
  than \<open>2 ^ 32\<close> components and a string fewer than \<open>2 ^ 63\<close> bytes.
\<close>

datatype Item =
    String string
  | Integer "64 word"
  | List "Item option list"
  | Dictionary "(Item option \<times> Item option) list"

type_synonym Element = "Item option \<times> Item option"

subsection \<open>itoa\<close>

text \<open>
  The \<open>do ... while(quotient != 0)\<close> loop of \<open>itoa\<close>, for the default base 10 (the
  only base this header passes). \<open>%\<close> and \<open>/=\<close> truncate towards zero, which is
  \<open>smod\<close> and \<open>sdiv\<close>. The digits are appended least significant first.
\<close>

function itoa_loop :: "int \<Rightarrow> string \<Rightarrow> string" where
  "itoa_loop quot buffer =
     (let digit = nat \<bar>quot smod 10\<bar>;
          buffer' = buffer @ [''0123456789abcdef'' ! digit];
          quot' = quot sdiv 10
      in if quot' \<noteq> 0 then itoa_loop quot' buffer' else buffer')"
  by pat_completeness auto
termination
proof (relation "measure (\<lambda>(q, b). nat \<bar>q\<bar>)")
  show "wf (measure (\<lambda>(q, b). nat \<bar>q\<bar>))" by simp
next
  fix quot :: int and buffer :: string and x xa xb
  assume "xb = quot sdiv 10" and "xb \<noteq> 0"
  then have "quot \<noteq> 0" by auto
  have "\<bar>quot sdiv 10\<bar> = \<bar>quot\<bar> div 10"
    by (simp add: signed_divide_int_def abs_mult abs_sgn_eq \<open>quot \<noteq> 0\<close>)
  moreover have "\<bar>quot\<bar> div 10 < \<bar>quot\<bar>"
    using \<open>quot \<noteq> 0\<close> by (simp add: int_div_less_self)
  ultimately show "((xb, xa), quot, buffer) \<in> measure (\<lambda>(q, b). nat \<bar>q\<bar>)"
    using \<open>xb = quot sdiv 10\<close> by simp
qed

declare itoa_loop.simps [simp del]

text \<open>
  \<open>itoa\<close> instantiated at \<open>intmax_t\<close>. The sign test is written \<open>(value + 1) < 1\<close>
  in the source; the addition is modelled as the wrapping addition of the machine.
\<close>

definition itoa_intmax :: "64 word \<Rightarrow> string \<Rightarrow> string" where
  "itoa_intmax v buffer =
     (let b = itoa_loop (sint v) buffer;
          b' = (if sint (v + 1) < 1 then b @ ''-'' else b)
      in rev b')"

text \<open>
  \<open>itoa\<close> instantiated at \<open>size_t\<close> (64 bits, unsigned): the instance that
  \<open>String::write\<close> reaches through the overload without a buffer.
\<close>

definition itoa_size :: "nat \<Rightarrow> string \<Rightarrow> string" where
  "itoa_size v buffer =
     (let b = itoa_loop (int v) buffer;
          b' = (if (v + 1) mod 2 ^ 64 < 1 then b @ ''-'' else b)
      in rev b')"

subsection \<open>Flattening a node into components\<close>

function (sequential) componentCount :: "Item \<Rightarrow> nat"
  and list_componentCount :: "Item option list \<Rightarrow> nat"
  and dict_componentCount :: "Element list \<Rightarrow> nat"
where
  "componentCount (String v) = 1"
| "componentCount (Integer v) = 1"
| "componentCount (List items) = list_componentCount items"
| "componentCount (Dictionary items) = dict_componentCount items"
| "list_componentCount [] = 0"
| "list_componentCount (None # items) = 1 + list_componentCount items"
| "list_componentCount (Some item # items) = componentCount item + list_componentCount items"
| "dict_componentCount [] = 0"
| "dict_componentCount ((first, second) # items) =
     (case first of None \<Rightarrow> 0 | Some k \<Rightarrow> componentCount k)
     + (case second of None \<Rightarrow> 0 | Some v \<Rightarrow> componentCount v)
     + dict_componentCount items"
  by pat_completeness auto
termination
  by (relation "measure (case_sum size (case_sum (size_list (size_option size))
        (size_list (size_prod (size_option size) (size_option size)))))") auto

text \<open>
  \<open>component(index, buffer)\<close> writes into the caller's buffer and returns it; where the
  source leaves the buffer alone (a String or Integer asked for an index other than 0)
  the model returns the buffer as it came in.
\<close>

function (sequential) component :: "Item \<Rightarrow> nat \<Rightarrow> string \<Rightarrow> string"
  and list_component :: "Item option list \<Rightarrow> nat \<Rightarrow> string \<Rightarrow> string"
  and dict_component :: "Element list \<Rightarrow> nat \<Rightarrow> string \<Rightarrow> string"
where
  "component (String v) index buffer = (if index = 0 then v else buffer)"
| "component (Integer v) index buffer = (if index = 0 then itoa_intmax v [] else buffer)"
| "component (List items) index buffer = list_component items index buffer"
| "component (Dictionary items) index buffer = dict_component items index buffer"
| "list_component [] index buffer = []"
| "list_component (None # items) index buffer =
     (if index \<ge> 1 then list_component items (index - 1) buffer else [])"
| "list_component (Some item # items) index buffer =
     (if index \<ge> componentCount item
      then list_component items (index - componentCount item) buffer
      else component item index buffer)"
| "dict_component [] index buffer = []"
| "dict_component ((first, second) # items) index buffer =
     (let firstCount = (case first of None \<Rightarrow> 1 | Some k \<Rightarrow> componentCount k);
          secondCount = (case second of None \<Rightarrow> 1 | Some v \<Rightarrow> componentCount v)
      in if index \<ge> firstCount
         then (let index' = index - firstCount
               in if index' \<ge> secondCount
                  then dict_component items (index' - secondCount) buffer
                  else (case second of None \<Rightarrow> [] | Some v \<Rightarrow> component v index' buffer))
         else (case first of None \<Rightarrow> [] | Some k \<Rightarrow> component k index buffer))"
  by pat_completeness auto
termination
  by (relation "measure (case_sum (\<lambda>(x, i, b). size x)
        (case_sum (\<lambda>(x, i, b). size_list (size_option size) x)
          (\<lambda>(x, i, b). size_list (size_prod (size_option size) (size_option size)) x)))") auto

subsection \<open>The comparator\<close>

text \<open>
  \<open>std::string::compare\<close>: the bytes are compared as unsigned values, the shorter
  string is smaller when one is a prefix of the other. The standard fixes only the sign
  of the result, so the model returns \<open>-1\<close>, \<open>0\<close> or \<open>1\<close>.
\<close>

fun string_compare :: "string \<Rightarrow> string \<Rightarrow> int" where
  "string_compare [] [] = 0"
| "string_compare [] (y # ys) = - 1"
| "string_compare (x # xs) [] = 1"
| "string_compare (x # xs) (y # ys) =
     (if (of_char x :: nat) < of_char y then - 1
      else if (of_char y :: nat) < of_char x then 1
      else string_compare xs ys)"

text \<open>
  The \<open>for\<close> loop of \<open>Item::compare\<close>, from index \<open>i\<close>, with the two buffers \<open>s1\<close> and
  \<open>s2\<close> that the loop reuses from one round to the next.
\<close>

function compare_loop :: "Item \<Rightarrow> Item \<Rightarrow> nat \<Rightarrow> nat \<Rightarrow> nat \<Rightarrow> nat \<Rightarrow> string \<Rightarrow> string \<Rightarrow> int" where
  "compare_loop a b c1 c2 mx i s1 s2 =
     (if i < mx
      then (let s1' = component a i s1;
                s2' = component b i s2;
                result = string_compare s1' s2'
            in if result \<noteq> 0 then result
               else compare_loop a b c1 c2 mx (i + 1) s1' s2')
      else (if c1 < c2 then - 1 else (if c1 > c2 then 1 else 0)))"
  by pat_completeness auto
termination
  by (relation "measure (\<lambda>(a, b, c1, c2, mx, i, s1, s2). mx - i)") auto

declare compare_loop.simps [simp del]

definition compare :: "Item \<Rightarrow> Item \<Rightarrow> int" where
  "compare a b =
     (let c1 = componentCount a;
          c2 = componentCount b;
          mx = (if c1 < c2 then c1 else c2)
      in compare_loop a b c1 c2 mx 0 [] [])"


subsection \<open>The comparator is a lexicographic order\<close>

lemma string_compare_refl: "string_compare s s = 0"
  by (induction s) simp_all

lemma string_compare_eq_iff: "string_compare a b = 0 \<longleftrightarrow> a = b"
  by (induction a b rule: string_compare.induct) auto

lemma string_compare_antisym: "string_compare b a = - string_compare a b"
  by (induction a b rule: string_compare.induct) simp_all

lemma string_compare_less_trans:
  "string_compare a b < 0 \<Longrightarrow> string_compare b c < 0 \<Longrightarrow> string_compare a c < 0"
proof (induction a b arbitrary: c rule: string_compare.induct)
  case 1
  then show ?case by simp
next
  case (2 y ys)
  then show ?case by (cases c) simp_all
next
  case (3 x xs)
  then show ?case by simp
next
  case (4 x xs y ys)
  show ?case
  proof (cases c)
    case Nil
    with 4 show ?thesis by simp
  next
    case (Cons z zs)
    from 4(2) have xy: "(of_char x :: nat) \<le> of_char y" by (simp split: if_splits)
    from 4(3) Cons have yz: "(of_char y :: nat) \<le> of_char z" by (simp split: if_splits)
    show ?thesis
    proof (cases "(of_char x :: nat) < of_char z")
      case True
      with Cons show ?thesis by simp
    next
      case False
      with xy yz have "(of_char x :: nat) = of_char y \<and> (of_char y :: nat) = of_char z"
        by linarith
      then have e: "x = y" "y = z" by simp_all
      with 4(2) have 1: "string_compare xs ys < 0" by simp
      from e 4(3) Cons have 2: "string_compare ys zs < 0" by simp
      from e have "string_compare xs zs < 0" by (intro 4(1) [OF _ _ 1 2]) simp_all
      with e Cons show ?thesis by simp
    qed
  qed
qed

text \<open>The lexicographic order on component lists that the loop of \<open>compare\<close> computes.\<close>

fun lex_compare :: "string list \<Rightarrow> string list \<Rightarrow> int" where
  "lex_compare [] [] = 0"
| "lex_compare [] (y # ys) = - 1"
| "lex_compare (x # xs) [] = 1"
| "lex_compare (x # xs) (y # ys) =
     (if string_compare x y \<noteq> 0 then string_compare x y else lex_compare xs ys)"

lemma lex_compare_refl: "lex_compare s s = 0"
  by (induction s) (simp_all add: string_compare_refl)

lemma lex_compare_antisym: "lex_compare b a = - lex_compare a b"
proof (induction a b rule: lex_compare.induct)
  case (4 x xs y ys)
  have a: "string_compare y x = - string_compare x y" by (rule string_compare_antisym)
  show ?case
  proof (cases "string_compare x y = 0")
    case True
    with 4 a show ?thesis by simp
  next
    case False
    with a show ?thesis by simp
  qed
qed simp_all

lemma lex_compare_trans:
  "lex_compare a b \<le> 0 \<Longrightarrow> lex_compare b c \<le> 0 \<Longrightarrow> lex_compare a c \<le> 0"
proof (induction a b arbitrary: c rule: lex_compare.induct)
  case 1
  then show ?case by simp
next
  case (2 y ys)
  then show ?case by (cases c) simp_all
next
  case (3 x xs)
  then show ?case by simp
next
  case (4 x xs y ys)
  show ?case
  proof (cases c)
    case Nil
    with 4 show ?thesis by simp
  next
    case (Cons z zs)
    show ?thesis
    proof (cases "string_compare x y = 0")
      case True
      then have "x = y" by (simp add: string_compare_eq_iff)
      with 4 Cons True show ?thesis by (simp split: if_splits)
    next
      case False
      with 4 have xy: "string_compare x y < 0" by (simp split: if_splits)
      show ?thesis
      proof (cases "string_compare y z = 0")
        case True
        then have "y = z" by (simp add: string_compare_eq_iff)
        with xy Cons show ?thesis by simp
      next
        case False
        with 4 Cons have "string_compare y z < 0" by (simp split: if_splits)
        with xy have "string_compare x z < 0" by (rule string_compare_less_trans)
        with Cons show ?thesis by simp
      qed
    qed
  qed
qed

lemma component_buffer:
  "index < componentCount x \<Longrightarrow> component x index b = component x index []"
  "index < list_componentCount xs \<Longrightarrow> list_component xs index b = list_component xs index []"
  "index < dict_componentCount ds \<Longrightarrow> dict_component ds index b = dict_component ds index []"
proof (induction x index b and xs index b and ds index b
    rule: component_list_component_dict_component.induct)
  case (9 first second items index buffer)
  show ?case
  proof (cases first)
    case None
    note f = None
    show ?thesis
    proof (cases second)
      case None
      with f 9 show ?thesis by (simp add: Let_def)
    next
      case (Some v)
      with f 9 show ?thesis by (simp add: Let_def)
    qed
  next
    case (Some k)
    note f = Some
    show ?thesis
    proof (cases second)
      case None
      with f 9 show ?thesis by (simp add: Let_def)
    next
      case (Some v)
      with f 9 show ?thesis by (simp add: Let_def)
    qed
  qed
qed simp_all

text \<open>The flattened text of a node: its components, in order.\<close>

definition components :: "Item \<Rightarrow> string list" where
  "components x = map (\<lambda>i. component x i []) [0..<componentCount x]"

lemma compare_loop_lex:
  "i \<le> mx \<Longrightarrow> mx = min (componentCount a) (componentCount b) \<Longrightarrow>
   compare_loop a b (componentCount a) (componentCount b) mx i s1 s2 =
     lex_compare (map (\<lambda>i. component a i []) [i..<componentCount a])
                 (map (\<lambda>i. component b i []) [i..<componentCount b])"
proof (induction "mx - i" arbitrary: i s1 s2)
  case 0
  from 0(1,2) have i: "i = mx" by arith
  show ?case
  proof (cases "componentCount a < componentCount b")
    case True
    with 0 i show ?thesis
      by (subst compare_loop.simps) (simp add: upt_conv_Cons [of "componentCount a"])
  next
    case False
    note nl = False
    show ?thesis
    proof (cases "componentCount b < componentCount a")
      case True
      with 0 i show ?thesis
        by (subst compare_loop.simps) (simp add: upt_conv_Cons [of "componentCount b"])
    next
      case False
      with nl 0 i show ?thesis
        by (subst compare_loop.simps) simp
    qed
  qed
next
  case (Suc n)
  from Suc(2) have lt: "i < mx" by arith
  from lt Suc(4) have ia: "i < componentCount a" and ib: "i < componentCount b" by simp_all
  have ih: "compare_loop a b (componentCount a) (componentCount b) mx (i + 1)
              (component a i s1) (component b i s2) =
            lex_compare (map (\<lambda>i. component a i []) [i + 1..<componentCount a])
                 (map (\<lambda>i. component b i []) [i + 1..<componentCount b])"
    using Suc(2,4) lt by (intro Suc(1)) simp_all
  have ca: "component a i s1 = component a i []" using ia by (rule component_buffer)
  have cb: "component b i s2 = component b i []" using ib by (rule component_buffer)
  show ?case
    using lt ih ia ib
    by (subst compare_loop.simps) (simp add: upt_conv_Cons ca cb Let_def)
qed

lemma compare_lex: "compare a b = lex_compare (components a) (components b)"
proof -
  have m: "(if componentCount a < componentCount b then componentCount a else componentCount b)
        = min (componentCount a) (componentCount b)"
    by (simp add: min_def)
  show ?thesis
    unfolding compare_def components_def Let_def m
    by (rule compare_loop_lex) simp_all
qed

lemma compare_refl: "compare a a = 0"
  by (simp add: compare_lex lex_compare_refl)

lemma compare_antisym: "compare b a = - compare a b"
  unfolding compare_lex by (rule lex_compare_antisym)

lemma compare_trans: "compare a b \<le> 0 \<Longrightarrow> compare b c \<le> 0 \<Longrightarrow> compare a c \<le> 0"
  unfolding compare_lex by (rule lex_compare_trans)


text \<open>
  The comparison as the specification words it: over the first \<open>n\<close> indices, \<open>n\<close> the
  smaller of the two component counts, the first non-equal byte-wise result decides;
  when there is none, the node with fewer components is smaller, and equal counts give
  equality.
\<close>

definition compare_spec :: "Item \<Rightarrow> Item \<Rightarrow> int" where
  "compare_spec a b =
     (let n = min (componentCount a) (componentCount b)
      in case filter (\<lambda>r. r \<noteq> 0)
                (map (\<lambda>i. string_compare (component a i []) (component b i [])) [0..<n]) of
           r # rs \<Rightarrow> r
         | [] \<Rightarrow> (if componentCount a < componentCount b then - 1
                  else if componentCount b < componentCount a then 1 else 0))"

lemma lex_compare_first_nonzero:
  "lex_compare xs ys =
     (case filter (\<lambda>r. r \<noteq> 0) (map (\<lambda>(x, y). string_compare x y) (zip xs ys)) of
        r # rs \<Rightarrow> r
      | [] \<Rightarrow> (if length xs < length ys then - 1 else if length ys < length xs then 1 else 0))"
  by (induction xs ys rule: lex_compare.induct) simp_all

lemma zip_components:
  "map (\<lambda>(x, y). string_compare x y) (zip (map f [0..<m]) (map g [0..<n])) =
   map (\<lambda>i. string_compare (f i) (g i)) [0..<min m n]"
  by (rule nth_equalityI) simp_all

lemma compare_eq_spec: "compare a b = compare_spec a b"
  unfolding compare_lex lex_compare_first_nonzero compare_spec_def components_def Let_def
  by (simp add: zip_components)

lemma itoa_5: "itoa_intmax 5 [] = ''5''"
  by (simp add: itoa_intmax_def itoa_loop.simps)

section \<open>Properties of the comparator\<close>

text \<open>
  C3. \<open>Item::compare\<close> orders all nodes, of whatever variants: a node compares equal to
  itself, \<open>compare a b\<close> is less exactly when \<open>compare b a\<close> is greater, and non-greater
  is transitive.
\<close>

theorem compare_total_order:
  "compare a a = 0
   \<and> (compare a b < 0 \<longleftrightarrow> 0 < compare b a)
   \<and> (compare a b \<le> 0 \<and> compare b c \<le> 0 \<longrightarrow> compare a c \<le> 0)"
proof (intro conjI impI)
  show "compare a a = 0" by (rule compare_refl)
  show "compare a b < 0 \<longleftrightarrow> 0 < compare b a"
    using compare_antisym [of b a] by simp
  assume "compare a b \<le> 0 \<and> compare b c \<le> 0"
  then show "compare a c \<le> 0" by (blast intro: compare_trans)
qed

theorem compare_total_order_witness:
  "compare (Integer 3) (String ''5'') \<le> 0
   \<and> compare (String ''5'') (List [Some (String ''7''), None]) \<le> 0
   \<and> compare (Integer 3) (List [Some (String ''7''), None]) \<le> 0"
proof -
  have h1: "compare (Integer 3) (String ''5'') \<le> 0"
    by (simp add: compare_lex components_def itoa_intmax_def itoa_loop.simps)
  have h2: "compare (String ''5'') (List [Some (String ''7''), None]) \<le> 0"
    by (simp add: compare_lex components_def)
  from compare_total_order [of "Integer 3" "String ''5''" "List [Some (String ''7''), None]"] h1 h2
  show ?thesis by blast
qed

text \<open>
  C4. \<open>compare a b\<close> is the comparison the specification describes: the first non-equal
  byte-wise comparison of the components at the indices below the smaller component
  count, then the prefix rule on the counts. So an Integer and the String that holds its
  decimal text compare equal, as integer 5 and the one-byte string "5" do.
\<close>

theorem compare_algorithm:
  "compare a b = compare_spec a b
   \<and> compare (Integer v) (String (itoa_intmax v [])) = 0
   \<and> compare (Integer 5) (String ''5'') = 0"
proof (intro conjI)
  show "compare a b = compare_spec a b" by (rule compare_eq_spec)
  show "compare (Integer v) (String (itoa_intmax v [])) = 0"
    by (simp add: compare_lex components_def string_compare_refl)
  show "compare (Integer 5) (String ''5'') = 0"
    by (simp add: compare_lex components_def itoa_5)
qed

section \<open>The dictionary engine\<close>

text \<open>
  \<open>Dictionary::_find\<close> calls \<open>key->compare(*position->first)\<close> on the raw pointers. When
  either is \<open>NULL\<close> the call dereferences it; the model stops there with
  \<open>NullDereference\<close>. \<open>OutOfRange\<close> stands for \<open>position->second\<close> taken at
  \<open>_items.end()\<close>.
\<close>

datatype error = NullDereference | OutOfRange

text \<open>
  The \<open>while\<close> loop of \<open>_find\<close>: the iterator starts at \<open>begin()\<close> and advances while the
  key is greater than the key stored there. The result is the index the iterator stops at.
\<close>

fun find_loop :: "Item option \<Rightarrow> Element list \<Rightarrow> error + nat" where
  "find_loop key [] = Inr 0"
| "find_loop key ((first, second) # rest) =
     (case key of
        None \<Rightarrow> Inl NullDereference
      | Some k \<Rightarrow>
          (case first of
             None \<Rightarrow> Inl NullDereference
           | Some f \<Rightarrow>
               if compare k f > 0
               then (case find_loop key rest of Inl e \<Rightarrow> Inl e | Inr p \<Rightarrow> Inr (Suc p))
               else Inr 0))"

text \<open>
  \<open>Dictionary::_find\<close>, returning the flag and the position. The source also returns
  \<open>true\<close> when \<open>position->first == key\<close> as pointers; two equal non-null pointers point
  to one node, which compares equal to itself, so the last line gives the same answer and
  the model, which has values and no addresses, needs no branch for it.
\<close>

definition dict_find :: "Item option \<Rightarrow> Element list \<Rightarrow> error + (bool \<times> nat)" where
  "dict_find key items =
     (case find_loop key items of
        Inl e \<Rightarrow> Inl e
      | Inr position \<Rightarrow>
          if position = length items then Inr (False, position)
          else (case (fst (items ! position), key) of
                  (Some f, Some k) \<Rightarrow> Inr (compare f k = 0, position)
                | _ \<Rightarrow> Inr (False, position)))"

text \<open>
  \<open>Dictionary::operator[](Item::ConstPtr key)\<close>, with the function that clones the key as
  a parameter, since \<open>Dictionary::clone\<close> itself goes through \<open>operator[]\<close>. The result
  is the element sequence and the index of the element whose \<open>second\<close> the returned
  \<open>Assignment\<close> refers to.
\<close>

definition index_with ::
  "(Item \<Rightarrow> error + Item) \<Rightarrow> Item option \<Rightarrow> Element list \<Rightarrow> error + (Element list \<times> nat)" where
  "index_with cl key items =
     (case dict_find key items of
        Inl e \<Rightarrow> Inl e
      | Inr (found, position) \<Rightarrow>
          if found then Inr (items, position)
          else (case (case key of None \<Rightarrow> Inr None
                       | Some k \<Rightarrow> (case cl k of Inl e \<Rightarrow> Inl e | Inr k' \<Rightarrow> Inr (Some k'))) of
                  Inl e \<Rightarrow> Inl e
                | Inr key' \<Rightarrow>
                    (let items' = take position items @ [(key', None)] @ drop position items
                     in case dict_find key items' of
                          Inl e \<Rightarrow> Inl e
                        | Inr (found', position') \<Rightarrow>
                            if position' < length items' then Inr (items', position')
                            else Inl OutOfRange)))"

lemma index_with_cong [fundef_cong]:
  "key = key' \<Longrightarrow> items = items' \<Longrightarrow> (\<And>k. key' = Some k \<Longrightarrow> cl k = cl' k)
   \<Longrightarrow> index_with cl key items = index_with cl' key' items'"
  by (auto simp: index_with_def split: sum.splits option.splits)

text \<open>
  \<open>clone\<close> of the four node classes. \<open>List::clone\<close> pushes the clone of every slot;
  \<open>Dictionary::clone\<close> assigns the clone of every value under the clone of its key, through
  \<open>operator[]\<close>, which clones the key once more.
\<close>

function (sequential) clone :: "Item \<Rightarrow> error + Item"
  and clone_list :: "Item option list \<Rightarrow> Item option list \<Rightarrow> error + Item"
  and clone_dict :: "Element list \<Rightarrow> Element list \<Rightarrow> error + Item"
where
  "clone (String v) = Inr (String v)"
| "clone (Integer v) = Inr (Integer v)"
| "clone (List items) = clone_list items []"
| "clone (Dictionary items) = clone_dict items []"
| "clone_list [] result = Inr (List result)"
| "clone_list (None # items) result = clone_list items (result @ [None])"
| "clone_list (Some item # items) result =
     (case clone item of
        Inl e \<Rightarrow> Inl e
      | Inr c \<Rightarrow> clone_list items (result @ [Some c]))"
| "clone_dict [] result = Inr (Dictionary result)"
| "clone_dict ((first, second) # items) result =
     (case (case first of None \<Rightarrow> Inr None
            | Some f \<Rightarrow> (case clone f of Inl e \<Rightarrow> Inl e | Inr c \<Rightarrow> Inr (Some c))) of
        Inl e \<Rightarrow> Inl e
      | Inr k \<Rightarrow>
         (case (case second of None \<Rightarrow> Inr None
                | Some s \<Rightarrow> (case clone s of Inl e \<Rightarrow> Inl e | Inr c \<Rightarrow> Inr (Some c))) of
            Inl e \<Rightarrow> Inl e
          | Inr v \<Rightarrow>
             (case index_with clone k result of
                Inl e \<Rightarrow> Inl e
              | Inr (result', position) \<Rightarrow>
                  clone_dict items (result'[position := (fst (result' ! position), v)]))))"
  by pat_completeness auto

lemma find_loop_le: "find_loop key items = Inr p \<Longrightarrow> p \<le> length items"
proof (induction items arbitrary: p)
  case Nil
  then show ?case by simp
next
  case (Cons a items)
  obtain first second where a: "a = (first, second)" by (cases a)
  from Cons.IH Cons.prems a show ?case
    by (auto split: option.splits if_splits sum.splits)
qed

lemma dict_find_found_less:
  "dict_find key items = Inr (True, p) \<Longrightarrow> p < length items"
  using find_loop_le [of key items]
  by (fastforce simp: dict_find_def split: sum.splits if_splits option.splits)

lemma size_list_take_drop:
  "size_list f (take p xs) + size_list f (drop p xs) = size_list f xs"
proof -
  have "size_list f (take p xs @ drop p xs) = size_list f xs" by simp
  then show ?thesis by (simp only: size_list_append)
qed

lemma size_list_update:
  "p < length xs \<Longrightarrow> size_list f (xs[p := y]) + f (xs ! p) = size_list f xs + f y"
proof (induction xs arbitrary: p)
  case Nil
  then show ?case by simp
next
  case (Cons a xs)
  then show ?case by (cases p) auto
qed

lemma index_with_size:
  assumes "index_with cl k result = Inr (result', pos)"
    and "\<And>k0 c. k = Some k0 \<Longrightarrow> cl k0 = Inr c \<Longrightarrow> size c \<le> size k0"
  shows "size_list (size_prod (size_option size) (size_option size)) result'
          \<le> size_list (size_prod (size_option size) (size_option size)) result
            + size_option size k + 3 \<and> pos < length result'"
proof (cases "dict_find k result")
  case (Inl e)
  with assms(1) show ?thesis by (simp add: index_with_def)
next
  case (Inr fp)
  obtain found position where fp: "fp = (found, position)" by (cases fp)
  show ?thesis
  proof (cases found)
    case True
    with Inr fp assms(1) have "result' = result" "pos = position"
      by (simp_all add: index_with_def)
    with Inr fp True dict_find_found_less [of k result position] show ?thesis by simp
  next
    case False
    from Inr fp assms(1) False obtain key' where
      k': "(case k of None \<Rightarrow> Inr None
            | Some k0 \<Rightarrow> (case cl k0 of Inl e \<Rightarrow> Inl e | Inr c \<Rightarrow> Inr (Some c))) = Inr key'"
      and r: "result' = take position result @ [(key', None)] @ drop position result"
      and p: "pos < length result'"
      by (auto simp: index_with_def Let_def split: sum.splits if_splits)
    from k' assms(2) have "size_option size key' \<le> size_option size k"
      by (auto split: option.splits sum.splits)
    with r p size_list_take_drop [of "size_prod (size_option size) (size_option size)" position result]
    show ?thesis by simp
  qed
qed

lemma clone_size:
  "clone_clone_list_clone_dict_dom (Inl x) \<Longrightarrow> (\<forall>y. clone x = Inr y \<longrightarrow> size y \<le> size x)"
  "clone_clone_list_clone_dict_dom (Inr (Inl (items, result))) \<Longrightarrow>
     (\<forall>y. clone_list items result = Inr y \<longrightarrow>
        (\<exists>r. y = List r \<and> size_list (size_option size) r
              \<le> size_list (size_option size) result + size_list (size_option size) items))"
  "clone_clone_list_clone_dict_dom (Inr (Inr (ditems, dresult))) \<Longrightarrow>
     (\<forall>y. clone_dict ditems dresult = Inr y \<longrightarrow>
        (\<exists>r. y = Dictionary r \<and> size_list (size_prod (size_option size) (size_option size)) r
              \<le> size_list (size_prod (size_option size) (size_option size)) dresult
                + size_list (size_prod (size_option size) (size_option size)) ditems))"
proof (induction rule: clone_clone_list_clone_dict.pinduct)
  case (1 v)
  then show ?case by (simp add: clone.psimps)
next
  case (2 v)
  then show ?case by (simp add: clone.psimps)
next
  case (3 items)
  then show ?case by (auto simp: clone.psimps)
next
  case (4 items)
  then show ?case by (auto simp: clone.psimps)
next
  case (5 result)
  then show ?case by (simp add: clone_list.psimps)
next
  case (6 items result)
  then show ?case by (simp add: clone_list.psimps)
next
  case (7 item items result)
  show ?case
  proof (intro allI impI)
    fix y
    assume y: "clone_list (Some item # items) result = Inr y"
    with 7(1) obtain c where c: "clone item = Inr c"
      and rest: "clone_list items (result @ [Some c]) = Inr y"
      by (auto simp: clone_list.psimps split: sum.splits)
    from 7(2) c have "size c \<le> size item" by simp
    moreover from 7(3) [OF c] rest obtain r where "y = List r"
      "size_list (size_option size) r
         \<le> size_list (size_option size) (result @ [Some c]) + size_list (size_option size) items"
      by blast
    ultimately show "\<exists>r. y = List r \<and> size_list (size_option size) r
         \<le> size_list (size_option size) result + size_list (size_option size) (Some item # items)"
      by simp
  qed
next
  case (8 result)
  then show ?case by (simp add: clone_dict.psimps)
next
  case (9 first second items result)
  let ?d = "size_list (size_prod (size_option size) (size_option size))"
  let ?K = "(case first of None \<Rightarrow> Inr None
            | Some f \<Rightarrow> case clone f of Inl x \<Rightarrow> Inl x | Inr c \<Rightarrow> Inr (Some c))"
  let ?V = "(case second of None \<Rightarrow> Inr None
            | Some s \<Rightarrow> case clone s of Inl x \<Rightarrow> Inl x | Inr c \<Rightarrow> Inr (Some c))"
  show ?case
  proof (intro allI impI)
    fix y
    assume y: "clone_dict ((first, second) # items) result = Inr y"
    with 9(1) obtain k v result' pos where K: "?K = Inr k" and V: "?V = Inr v"
      and I: "index_with clone k result = Inr (result', pos)"
      and rest: "clone_dict items (result'[pos := (fst (result' ! pos), v)]) = Inr y"
      by (auto simp: clone_dict.psimps split: sum.splits prod.splits)
    from K 9(2) have sk: "size_option size k \<le> size_option size first"
      by (auto split: option.splits sum.splits)
    from V 9(3) [OF K] have sv: "size_option size v \<le> size_option size second"
      by (auto split: option.splits sum.splits)
    have "\<And>k0 c. k = Some k0 \<Longrightarrow> clone k0 = Inr c \<Longrightarrow> size c \<le> size k0"
      using 9(4) [OF K V] by blast
    with I have si: "?d result' \<le> ?d result + size_option size k + 3" and p: "pos < length result'"
      using index_with_size [of clone k result result' pos] by blast+
    from size_list_update [OF p, of "size_prod (size_option size) (size_option size)" "(fst (result' ! pos), v)"]
    have su: "?d (result'[pos := (fst (result' ! pos), v)]) + 1 \<le> ?d result' + size_option size v"
      by (cases "result' ! pos"; cases "snd (result' ! pos)") simp_all
    from 9(5) [OF K V I refl] rest obtain r where "y = Dictionary r"
      and "?d r \<le> ?d (result'[pos := (fst (result' ! pos), v)]) + ?d items"
      by blast
    with sk sv si su show "\<exists>r. y = Dictionary r \<and> ?d r \<le> ?d result + ?d ((first, second) # items)"
      by simp
  qed
qed

lemma clone_size_key:
  assumes "(case first of None \<Rightarrow> Inr None
            | Some f \<Rightarrow> case clone f of Inl x \<Rightarrow> Inl x | Inr c \<Rightarrow> Inr (Some c)) = Inr (Some k)"
    and "\<And>x2. first = Some x2 \<Longrightarrow> clone_clone_list_clone_dict_dom (Inl x2)"
  shows "size k < size_option size first"
proof -
  from assms(1) obtain f where f: "first = Some f" and c: "clone f = Inr k"
    by (auto split: option.splits sum.splits)
  from clone_size(1) [OF assms(2) [OF f]] c have "size k \<le> size f" by simp
  with f show ?thesis by simp
qed

termination clone
  apply (relation "measure (case_sum size (case_sum (\<lambda>(x, r). size_list (size_option size) x)
        (\<lambda>(x, r). size_list (size_prod (size_option size) (size_option size)) x)))")
           apply simp_all
  subgoal for first second items b ba k
    using clone_size_key [of first k] by simp
  done

text \<open>\<open>Dictionary::operator[]\<close> itself: the key is cloned by \<open>clone\<close>.\<close>

definition dict_index :: "Item option \<Rightarrow> Element list \<Rightarrow> error + (Element list \<times> nat)" where
  "dict_index key items = index_with clone key items"

text \<open>
  \<open>Assignment::operator=(Item::Ptr value)\<close> on the handle that \<open>operator[]\<close> returned: the
  \<open>second\<close> of the element at the handle's position becomes \<open>value\<close> (the node that was
  there is deleted). Assigning the pointer the slot already holds changes nothing in the
  source and nothing here.
\<close>

definition assign_ptr :: "Element list \<Rightarrow> nat \<Rightarrow> Item option \<Rightarrow> Element list" where
  "assign_ptr items position v = items[position := (fst (items ! position), v)]"

text \<open>
  \<open>Dictionary::has_key\<close> and \<open>Dictionary::remove\<close>. Both return the element sequence they
  leave behind next to their result.
\<close>

definition has_key :: "Item option \<Rightarrow> Element list \<Rightarrow> error + (bool \<times> Element list)" where
  "has_key key items =
     (case dict_find key items of
        Inl e \<Rightarrow> Inl e
      | Inr (found, position) \<Rightarrow> Inr (found, items))"

definition dict_remove :: "Item option \<Rightarrow> Element list \<Rightarrow> error + (Item option \<times> Element list)" where
  "dict_remove key items =
     (case dict_find key items of
        Inl e \<Rightarrow> Inl e
      | Inr (found, position) \<Rightarrow>
          if found
          then Inr (snd (items ! position), take position items @ drop (Suc position) items)
          else Inr (None, items))"

subsection \<open>The invariant and well-formed trees\<close>

text \<open>
  \<open>dict_inv\<close>: no key is \<open>NULL\<close> and the keys increase strictly under \<open>compare\<close>.
  \<open>wf_item\<close>: every Dictionary inside the tree satisfies \<open>dict_inv\<close>; these are the trees
  that the operations of this header can build.
\<close>

definition key_less :: "Item option \<Rightarrow> Item option \<Rightarrow> bool" where
  "key_less a b = (case (a, b) of (Some x, Some y) \<Rightarrow> compare x y < 0 | _ \<Rightarrow> False)"

definition dict_inv :: "Element list \<Rightarrow> bool" where
  "dict_inv items \<longleftrightarrow>
     sorted_wrt (\<lambda>p q. key_less (fst p) (fst q)) items \<and> (\<forall>e \<in> set items. fst e \<noteq> None)"

function (sequential) wf_item :: "Item \<Rightarrow> bool"
  and wf_list :: "Item option list \<Rightarrow> bool"
  and wf_elements :: "Element list \<Rightarrow> bool"
where
  "wf_item (String v) = True"
| "wf_item (Integer v) = True"
| "wf_item (List items) = wf_list items"
| "wf_item (Dictionary items) = (wf_elements items \<and> dict_inv items)"
| "wf_list [] = True"
| "wf_list (None # items) = wf_list items"
| "wf_list (Some item # items) = (wf_item item \<and> wf_list items)"
| "wf_elements [] = True"
| "wf_elements ((first, second) # items) =
     ((case first of None \<Rightarrow> False | Some k \<Rightarrow> wf_item k)
      \<and> (case second of None \<Rightarrow> True | Some v \<Rightarrow> wf_item v)
      \<and> wf_elements items)"
  by pat_completeness auto
termination
  by (relation "measure (case_sum size (case_sum (size_list (size_option size))
        (size_list (size_prod (size_option size) (size_option size)))))") auto

subsection \<open>Finding and inserting in a sorted sequence\<close>

lemma compare_less_trans:
  assumes "compare a b < 0" and "compare b c < 0"
  shows "compare a c < 0"
proof (rule ccontr)
  assume "\<not> compare a c < 0"
  then have "compare c a \<le> 0" using compare_antisym [of c a] by simp
  moreover from assms(1) have "compare a b \<le> 0" by simp
  ultimately have "compare c b \<le> 0" by (rule compare_trans)
  with assms(2) show False using compare_antisym [of c b] by simp
qed

lemma find_loop_some:
  "\<forall>e \<in> set items. fst e \<noteq> None \<Longrightarrow>
   find_loop (Some k) items = Inr (length (takeWhile (\<lambda>e. 0 < compare k (the (fst e))) items))"
proof (induction items)
  case Nil
  then show ?case by simp
next
  case (Cons a items)
  obtain first second where a: "a = (first, second)" by (cases a)
  with Cons.prems obtain f where f: "first = Some f" by auto
  from Cons a f show ?case by simp
qed

lemma takeWhile_take: "take (length (takeWhile P xs)) xs = takeWhile P xs"
  by (induction xs) simp_all

lemma dropWhile_drop: "drop (length (takeWhile P xs)) xs = dropWhile P xs"
  by (induction xs) simp_all


definition find_pos :: "Item \<Rightarrow> Element list \<Rightarrow> nat" where
  "find_pos k items = length (takeWhile (\<lambda>e. 0 < compare k (the (fst e))) items)"

lemma find_pos_le: "find_pos k items \<le> length items"
  by (simp add: find_pos_def length_takeWhile_le)

lemma dict_find_some:
  assumes "\<forall>e \<in> set items. fst e \<noteq> None"
  shows "dict_find (Some k) items =
     Inr (find_pos k items < length items
            \<and> compare (the (fst (items ! find_pos k items))) k = 0, find_pos k items)"
proof (cases "find_pos k items = length items")
  case True
  with assms show ?thesis
    by (simp add: dict_find_def find_loop_some find_pos_def)
next
  case False
  with find_pos_le [of k items] have lt: "find_pos k items < length items" by simp
  then have "items ! find_pos k items \<in> set items" by simp
  with assms obtain f where f: "fst (items ! find_pos k items) = Some f" by auto
  with assms False lt show ?thesis
    by (simp add: dict_find_def find_loop_some find_pos_def [symmetric])
qed

lemma takeWhile_stop:
  "(\<And>x. x \<in> set xs \<Longrightarrow> P x) \<Longrightarrow> \<not> P y \<Longrightarrow> takeWhile P (xs @ y # ys) = xs"
  by (induction xs) simp_all

lemma find_pos_insert:
  "find_pos k (take (find_pos k items) items @ (Some k, v) # drop (find_pos k items) items)
     = find_pos k items"
proof -
  let ?P = "\<lambda>e. 0 < compare k (the (fst e))"
  have "takeWhile ?P (takeWhile ?P items @ (Some k, v) # dropWhile ?P items) = takeWhile ?P items"
    by (rule takeWhile_stop) (auto dest: set_takeWhileD simp: compare_refl)
  then show ?thesis
    by (simp add: find_pos_def takeWhile_take dropWhile_drop)
qed

lemma index_with_some:
  assumes keys: "\<forall>e \<in> set items. fst e \<noteq> None" and cl: "cl k = Inr k"
  shows "index_with cl (Some k) items =
     (if find_pos k items < length items
          \<and> compare (the (fst (items ! find_pos k items))) k = 0
      then Inr (items, find_pos k items)
      else Inr (take (find_pos k items) items @ [(Some k, None)] @ drop (find_pos k items) items,
                find_pos k items))"
proof -
  let ?p = "find_pos k items"
  let ?items' = "take ?p items @ (Some k, None) # drop ?p items"
  have keys': "\<forall>e \<in> set ?items'. fst e \<noteq> None"
    using keys by (auto dest: in_set_takeD in_set_dropD)
  have p': "find_pos k ?items' = ?p" by (rule find_pos_insert)
  have len: "?p < length ?items'" using find_pos_le [of k items] by simp
  show ?thesis
    unfolding index_with_def dict_find_some [OF keys]
    using cl dict_find_some [OF keys', of k] p' len
    by (simp add: Let_def)
qed

lemma sorted_insert:
  assumes inv: "dict_inv items"
    and nf: "\<not> (find_pos k items < length items
          \<and> compare (the (fst (items ! find_pos k items))) k = 0)"
  shows "dict_inv (take (find_pos k items) items @ [(Some k, v)] @ drop (find_pos k items) items)"
proof -
  let ?P = "\<lambda>e. 0 < compare k (the (fst e))"
  let ?R = "\<lambda>p q. key_less (fst p) (fst q)"
  let ?xs = "takeWhile ?P items" and ?ys = "dropWhile ?P items"
  from inv have keys: "\<forall>e \<in> set items. fst e \<noteq> None" by (simp add: dict_inv_def)
  from inv have "sorted_wrt ?R (?xs @ ?ys)" by (simp add: dict_inv_def)
  then have sx: "sorted_wrt ?R ?xs" and sy: "sorted_wrt ?R ?ys"
    and cross: "\<forall>x \<in> set ?xs. \<forall>y \<in> set ?ys. ?R x y"
    by (simp_all only: sorted_wrt_append) blast+
  have before: "?R x (Some k, v)" if "x \<in> set ?xs" for x
  proof -
    from that have "?P x" and "x \<in> set items" by (auto dest: set_takeWhileD)
    with keys obtain f where "fst x = Some f" by auto
    with \<open>?P x\<close> show ?thesis using compare_antisym [of f k] by (simp add: key_less_def)
  qed
  have after: "?R (Some k, v) y" if y: "y \<in> set ?ys" for y
  proof (cases ?ys)
    case Nil
    with y show ?thesis by simp
  next
    case (Cons h rest)
    then have nP: "\<not> ?P h" by (metis hd_dropWhile list.sel(1) list.distinct(1))
    have hp: "h = items ! find_pos k items" and lt: "find_pos k items < length items"
      using Cons unfolding find_pos_def
      by (metis hd_drop_conv_nth dropWhile_drop list.sel(1) drop_eq_Nil not_le list.distinct(1))+
    from Cons have "h \<in> set items" by (metis list.set_intros(1) set_dropWhileD)
    with keys obtain f where f: "fst h = Some f" by auto
    from nf lt hp f have "compare f k \<noteq> 0" by simp
    with nP f have kf: "compare k f < 0" using compare_antisym [of f k] by simp
    show ?thesis
    proof (cases "y = h")
      case True
      with f kf show ?thesis by (simp add: key_less_def)
    next
      case False
      with y Cons have "y \<in> set rest" by simp
      with sy Cons have "?R h y" by simp
      with f obtain g where g: "fst y = Some g" and "compare f g < 0"
        by (auto simp: key_less_def split: option.splits)
      with kf have "compare k g < 0" by (blast intro: compare_less_trans)
      with g show ?thesis by (simp add: key_less_def)
    qed
  qed
  have "sorted_wrt ?R (?xs @ [(Some k, v)] @ ?ys)"
    using sx sy cross before after by (simp add: sorted_wrt_append)
  moreover have "\<forall>e \<in> set (?xs @ [(Some k, v)] @ ?ys). fst e \<noteq> None"
    using keys by (auto dest: set_takeWhileD set_dropWhileD)
  ultimately show ?thesis
    by (simp add: dict_inv_def find_pos_def takeWhile_take dropWhile_drop)
qed

lemma find_pos_end:
  assumes "dict_inv (result @ [(Some f, v)])"
  shows "find_pos f result = length result"
proof -
  have "0 < compare f (the (fst e))" if e: "e \<in> set result" for e
  proof -
    from e assms have "key_less (fst e) (Some f)"
      by (simp add: dict_inv_def sorted_wrt_append)
    then obtain g where "fst e = Some g" and "compare g f < 0"
      by (auto simp: key_less_def split: option.splits)
    then show ?thesis using compare_antisym [of g f] by simp
  qed
  then have "takeWhile (\<lambda>e. 0 < compare f (the (fst e))) result = result"
    by (simp add: takeWhile_eq_all_conv)
  then show ?thesis unfolding find_pos_def by (rule arg_cong)
qed

lemma dict_inv_prefix: "dict_inv (xs @ ys) \<Longrightarrow> dict_inv xs"
  by (simp add: dict_inv_def sorted_wrt_append)

lemma index_with_append:
  assumes inv: "dict_inv (result @ [(Some f, v)])" and cl: "cl f = Inr f"
  shows "index_with cl (Some f) result = Inr (result @ [(Some f, None)], length result)"
proof -
  from inv have keys: "\<forall>e \<in> set result. fst e \<noteq> None" by (simp add: dict_inv_def)
  show ?thesis
    by (simp add: index_with_some [of result cl f, OF keys cl] find_pos_end [OF inv])
qed

lemma clone_wf:
  "wf_item x \<longrightarrow> clone x = Inr x"
  "wf_list items \<longrightarrow> clone_list items result = Inr (List (result @ items))"
  "wf_elements ditems \<and> dict_inv (dresult @ ditems)
     \<longrightarrow> clone_dict ditems dresult = Inr (Dictionary (dresult @ ditems))"
proof (induction x and items result and ditems dresult rule: clone_clone_list_clone_dict.induct)
  case (4 items)
  then show ?case by simp
next
  case (9 first second items result)
  show ?case
  proof
    assume a: "wf_elements ((first, second) # items) \<and> dict_inv (result @ (first, second) # items)"
    then obtain f where f: "first = Some f" and wf: "wf_item f"
      by (auto split: option.splits)
    from a have ws: "second = None \<or> (\<exists>s. second = Some s \<and> wf_item s)"
      by (auto split: option.splits)
    from a have wi: "wf_elements items" by simp
    from 9(1) f wf have cf: "clone f = Inr f" by simp
    then have K: "(case first of None \<Rightarrow> Inr None
            | Some f \<Rightarrow> case clone f of Inl x \<Rightarrow> Inl x | Inr c \<Rightarrow> Inr (Some c)) = Inr (Some f)"
      using f by simp
    from 9(2) [OF K] ws have V: "(case second of None \<Rightarrow> Inr None
            | Some s \<Rightarrow> case clone s of Inl x \<Rightarrow> Inl x | Inr c \<Rightarrow> Inr (Some c)) = Inr second"
      by auto
    from a f have inv1: "dict_inv (result @ [(Some f, second)])"
      using dict_inv_prefix [of "result @ [(Some f, second)]" items] by simp
    have I: "index_with clone (Some f) result = Inr (result @ [(Some f, None)], length result)"
      using inv1 cf by (rule index_with_append)
    from 9(4) [OF K V I refl] wi a f
    have "clone_dict items ((result @ [(Some f, None)])[length result := (fst ((result @ [(Some f, None)]) ! length result), second)])
        = Inr (Dictionary (result @ (first, second) # items))"
      by simp
    with K V I show "clone_dict ((first, second) # items) result
        = Inr (Dictionary (result @ (first, second) # items))"
      by simp
  qed
qed simp_all


subsection \<open>Sequences of operations\<close>

text \<open>
  The operations on a Dictionary that change its elements: \<open>Index key\<close> is \<open>d[key]\<close> read
  and dropped, \<open>Assign key v\<close> is \<open>d[key] = v\<close>, \<open>Remove key\<close> is \<open>d.remove(key)\<close>.
\<close>

datatype dict_op =
    Index "Item option"
  | Assign "Item option" "Item option"
  | Remove "Item option"

fun op_key :: "dict_op \<Rightarrow> Item option" where
  "op_key (Index key) = key"
| "op_key (Assign key v) = key"
| "op_key (Remove key) = key"

fun apply_op :: "dict_op \<Rightarrow> Element list \<Rightarrow> error + Element list" where
  "apply_op (Index key) items =
     (case dict_index key items of
        Inl e \<Rightarrow> Inl e
      | Inr (items', position) \<Rightarrow> Inr items')"
| "apply_op (Assign key v) items =
     (case dict_index key items of
        Inl e \<Rightarrow> Inl e
      | Inr (items', position) \<Rightarrow> Inr (assign_ptr items' position v))"
| "apply_op (Remove key) items =
     (case dict_remove key items of
        Inl e \<Rightarrow> Inl e
      | Inr (v, items') \<Rightarrow> Inr items')"

fun run_ops :: "dict_op list \<Rightarrow> Element list \<Rightarrow> error + Element list" where
  "run_ops [] items = Inr items"
| "run_ops (x # xs) items =
     (case apply_op x items of Inl e \<Rightarrow> Inl e | Inr items' \<Rightarrow> run_ops xs items')"

lemma dict_inv_fst:
  "dict_inv items \<longleftrightarrow> sorted_wrt key_less (map fst items) \<and> None \<notin> set (map fst items)"
proof -
  have "(\<forall>e \<in> set items. fst e \<noteq> None) \<longleftrightarrow> None \<notin> set (map fst items)" by force
  then show ?thesis by (simp add: dict_inv_def sorted_wrt_map)
qed

lemma map_fst_assign: "map fst (assign_ptr items p v) = map fst items"
proof (cases "p < length items")
  case True
  then have "(map fst items)[p := fst (items ! p)] = map fst items"
    by (metis list_update_id nth_map)
  then show ?thesis by (simp add: assign_ptr_def map_update)
next
  case False
  then have "items[p := (fst (items ! p), v)] = items" by (simp add: list_update_beyond)
  then show ?thesis by (simp add: assign_ptr_def)
qed

lemma dict_inv_assign: "dict_inv items \<Longrightarrow> dict_inv (assign_ptr items p v)"
  unfolding dict_inv_fst map_fst_assign by assumption

lemma dict_inv_keys: "dict_inv items \<Longrightarrow> \<forall>e \<in> set items. fst e \<noteq> None"
  by (simp add: dict_inv_def)

lemma dict_index_inv:
  assumes inv: "dict_inv items" and wf: "wf_item k"
  shows "\<exists>items' p. dict_index (Some k) items = Inr (items', p) \<and> dict_inv items'"
proof -
  from wf have cl: "clone k = Inr k" by (simp add: clone_wf)
  note idx = index_with_some [of items clone k, OF dict_inv_keys [OF inv] cl]
  show ?thesis
  proof (cases "find_pos k items < length items
          \<and> compare (the (fst (items ! find_pos k items))) k = 0")
    case True
    with idx inv show ?thesis by (simp add: dict_index_def)
  next
    case False
    from sorted_insert [OF inv False, of None] idx False show ?thesis
      by (simp add: dict_index_def)
  qed
qed

lemma dict_inv_erase:
  assumes "dict_inv items" and "p < length items"
  shows "dict_inv (take p items @ drop (Suc p) items)"
proof -
  from assms(2) have "items = take p items @ items ! p # drop (Suc p) items"
    by (simp add: id_take_nth_drop [symmetric])
  with assms(1) have "dict_inv (take p items @ items ! p # drop (Suc p) items)" by simp
  then show ?thesis by (simp add: dict_inv_def sorted_wrt_append)
qed

lemma dict_remove_inv:
  assumes inv: "dict_inv items"
  shows "\<exists>v items'. dict_remove (Some k) items = Inr (v, items') \<and> dict_inv items'"
  using inv dict_inv_erase [OF inv, of "find_pos k items"]
  by (simp add: dict_remove_def dict_find_some [OF dict_inv_keys [OF inv]])

lemma apply_op_inv:
  assumes inv: "dict_inv items" and key: "op_key x = Some k" and wf: "wf_item k"
  shows "\<exists>items'. apply_op x items = Inr items' \<and> dict_inv items'"
proof (cases x)
  case (Index key)
  with key dict_index_inv [OF inv wf] show ?thesis by auto
next
  case (Assign key v)
  with key dict_index_inv [OF inv wf] show ?thesis by (auto intro: dict_inv_assign)
next
  case (Remove key)
  with key dict_remove_inv [OF inv, of k] show ?thesis by auto
qed

lemma run_ops_inv:
  assumes "\<forall>x \<in> set ops. \<exists>k. op_key x = Some k \<and> wf_item k" and "dict_inv items"
  shows "\<exists>items'. run_ops ops items = Inr items' \<and> dict_inv items'"
  using assms
proof (induction ops arbitrary: items)
  case Nil
  then show ?case by simp
next
  case (Cons x ops)
  then obtain k where "op_key x = Some k" and "wf_item k" by auto
  from apply_op_inv [OF Cons.prems(2) this] obtain items1
    where a: "apply_op x items = Inr items1" and i: "dict_inv items1" by blast
  from Cons.IH [OF _ i] Cons.prems(1) a show ?case by simp
qed

lemma dict_inv_nth:
  assumes "dict_inv items" and "i < j" and "j < length items"
  shows "\<exists>a b. fst (items ! i) = Some a \<and> fst (items ! j) = Some b \<and> compare a b < 0"
proof -
  from assms have "key_less (fst (items ! i)) (fst (items ! j))"
    by (simp add: dict_inv_def sorted_wrt_iff_nth_less)
  then show ?thesis by (auto simp: key_less_def split: option.splits)
qed

lemma dict_index_null: "dict_index None items = Inl NullDereference"
proof (cases items)
  case Nil
  then show ?thesis by (simp add: dict_index_def index_with_def dict_find_def)
next
  case (Cons a list)
  then show ?thesis by (cases a) (simp add: dict_index_def index_with_def dict_find_def)
qed

text \<open>
  C5. Starting from the empty Dictionary, any sequence of indexing, assignment and
  removal whose keys are non-null well-formed nodes runs without error, and leaves the
  elements strictly increasing by key: for any two positions \<open>i < j\<close> the keys compare
  non-greater (sorted) and not equal (no duplicate). A \<open>NULL\<close> key never gets that far
  (\<open>dict_index_null\<close>).
\<close>

theorem dictionary_sorted_unique:
  assumes "\<forall>x \<in> set ops. \<exists>k. op_key x = Some k \<and> wf_item k"
  shows "\<exists>items. run_ops ops [] = Inr items
     \<and> (\<forall>i j. i < j \<and> j < length items \<longrightarrow>
          (\<exists>a b. fst (items ! i) = Some a \<and> fst (items ! j) = Some b
                 \<and> compare a b \<le> 0 \<and> compare a b \<noteq> 0))"
proof -
  have "dict_inv []" by (simp add: dict_inv_def)
  from run_ops_inv [OF assms this] obtain items
    where r: "run_ops ops [] = Inr items" and i: "dict_inv items" by blast
  have "\<exists>a b. fst (items ! i) = Some a \<and> fst (items ! j) = Some b
                 \<and> compare a b \<le> 0 \<and> compare a b \<noteq> 0"
    if "i < j \<and> j < length items" for i j
    using dict_inv_nth [OF i, of i j] that by force
  with r show ?thesis by blast
qed

theorem dictionary_sorted_unique_witness:
  "run_ops [Assign (Some (String ''spam'')) (Some (String ''eggs'')),
            Assign (Some (String ''cow'')) (Some (String ''moo'')),
            Index (Some (Integer 7)),
            Remove (Some (String ''spam''))] []
     = Inr [(Some (Integer 7), None), (Some (String ''cow''), Some (String ''moo''))]
   \<and> (\<exists>a b. Some (Integer 7) = Some a \<and> Some (String ''cow'') = Some b
          \<and> compare a b \<le> 0 \<and> compare a b \<noteq> 0)"
proof -
  let ?ops = "[Assign (Some (String ''spam'')) (Some (String ''eggs'')),
            Assign (Some (String ''cow'')) (Some (String ''moo'')),
            Index (Some (Integer 7)),
            Remove (Some (String ''spam''))]"
  let ?items = "[(Some (Integer 7), None), (Some (String ''cow''), Some (String ''moo''))]"
  have h: "\<forall>x \<in> set ?ops. \<exists>k. op_key x = Some k \<and> wf_item k" by simp
  have r: "run_ops ?ops [] = Inr ?items"
    by (simp add: dict_index_def index_with_def dict_find_def dict_remove_def assign_ptr_def
        compare_lex components_def itoa_intmax_def itoa_loop.simps)
  from dictionary_sorted_unique [OF h] r
  have "\<forall>i j. i < j \<and> j < length ?items \<longrightarrow>
          (\<exists>a b. fst (?items ! i) = Some a \<and> fst (?items ! j) = Some b
                 \<and> compare a b \<le> 0 \<and> compare a b \<noteq> 0)"
    by simp
  from this [rule_format, of 0 1] r show ?thesis by simp
qed

lemma found_iff:
  assumes inv: "dict_inv items"
  shows "(find_pos k items < length items
           \<and> compare (the (fst (items ! find_pos k items))) k = 0)
     \<longleftrightarrow> (\<exists>e \<in> set items. \<exists>f. fst e = Some f \<and> compare f k = 0)"
    (is "?L \<longleftrightarrow> ?R")
proof
  assume l: ?L
  then have m: "items ! find_pos k items \<in> set items" by simp
  with dict_inv_keys [OF inv] obtain f where "fst (items ! find_pos k items) = Some f" by auto
  with l m show ?R by force
next
  let ?P = "\<lambda>e. 0 < compare k (the (fst e))"
  let ?p = "find_pos k items"
  assume ?R
  then obtain i f where i: "i < length items" and f: "fst (items ! i) = Some f"
    and eq: "compare f k = 0"
    by (auto simp: in_set_conv_nth)
  from eq have eq': "compare k f = 0" using compare_antisym [of k f] by simp
  have pi: "?p \<le> i"
  proof (rule ccontr)
    assume "\<not> ?p \<le> i"
    then have lt: "i < length (takeWhile ?P items)" by (simp add: find_pos_def)
    then have "takeWhile ?P items ! i = items ! i" by (rule takeWhile_nth)
    with lt have "items ! i \<in> set (takeWhile ?P items)" by (metis nth_mem)
    then have "?P (items ! i)" by (rule set_takeWhileD [THEN conjunct2])
    with f eq' show False by simp
  qed
  with i have pl: "?p < length items" by simp
  then have "\<not> ?P (items ! ?p)" unfolding find_pos_def by (rule nth_length_takeWhile)
  moreover from pl dict_inv_keys [OF inv] obtain g where g: "fst (items ! ?p) = Some g"
    by (metis nth_mem option.exhaust)
  ultimately have kg: "compare k g \<le> 0" by simp
  have "?p = i"
  proof (rule ccontr)
    assume "?p \<noteq> i"
    with pi have "?p < i" by simp
    from dict_inv_nth [OF inv this i] g f have gf: "compare g f < 0" by simp
    from eq kg have "compare f g \<le> 0" by (intro compare_trans [of f k g]) simp_all
    with gf show False using compare_antisym [of f g] by simp
  qed
  with pl f eq show ?L by simp
qed

text \<open>
  C6. On a Dictionary that satisfies the invariant, \<open>has_key\<close> reports whether some
  element's key compares equal to the key and returns the elements unchanged. When it
  reports absence, \<open>operator[]\<close> inserts the pair (clone of the key, \<open>NULL\<close>) at the
  position that keeps the keys sorted, returns the handle of that pair, and the
  Dictionary is no longer what it was.
\<close>

theorem index_inserts_has_key_does_not:
  assumes inv: "dict_inv items" and wf: "wf_item k"
  shows "has_key (Some k) items =
           Inr (\<exists>e \<in> set items. \<exists>f. fst e = Some f \<and> compare f k = 0, items)
     \<and> (has_key (Some k) items = Inr (False, items) \<longrightarrow>
          (\<exists>c p. clone k = Inr c
             \<and> dict_index (Some k) items
                 = Inr (take p items @ [(Some c, None)] @ drop p items, p)
             \<and> (take p items @ [(Some c, None)] @ drop p items) ! p = (Some c, None)
             \<and> dict_inv (take p items @ [(Some c, None)] @ drop p items)
             \<and> take p items @ [(Some c, None)] @ drop p items \<noteq> items))"
proof (intro conjI impI)
  note df = dict_find_some [OF dict_inv_keys [OF inv], of k]
  show hk: "has_key (Some k) items =
           Inr (\<exists>e \<in> set items. \<exists>f. fst e = Some f \<and> compare f k = 0, items)"
    by (simp add: has_key_def df found_iff [OF inv])
  assume "has_key (Some k) items = Inr (False, items)"
  then have nf: "\<not> (find_pos k items < length items
          \<and> compare (the (fst (items ! find_pos k items))) k = 0)"
    by (simp add: has_key_def df)
  let ?p = "find_pos k items"
  let ?items' = "take ?p items @ [(Some k, None)] @ drop ?p items"
  from wf have cl: "clone k = Inr k" by (simp add: clone_wf)
  have 1: "dict_index (Some k) items = Inr (?items', ?p)"
    using index_with_some [of items clone k, OF dict_inv_keys [OF inv] cl] nf
    by (simp add: dict_index_def)
  have 2: "?items' ! ?p = (Some k, None)"
    using find_pos_le [of k items] by (simp add: nth_append)
  have 3: "dict_inv ?items'" using inv nf by (rule sorted_insert)
  have "length ?items' = Suc (length items)" using find_pos_le [of k items] by simp
  then have 4: "?items' \<noteq> items" by (metis n_not_Suc_n)
  from cl 1 2 3 4
  show "\<exists>c p. clone k = Inr c
             \<and> dict_index (Some k) items
                 = Inr (take p items @ [(Some c, None)] @ drop p items, p)
             \<and> (take p items @ [(Some c, None)] @ drop p items) ! p = (Some c, None)
             \<and> dict_inv (take p items @ [(Some c, None)] @ drop p items)
             \<and> take p items @ [(Some c, None)] @ drop p items \<noteq> items"
    by blast
qed

theorem index_inserts_has_key_does_not_witness:
  "has_key (Some (String ''bee'')) [(Some (String ''cow''), Some (String ''moo''))]
     = Inr (False, [(Some (String ''cow''), Some (String ''moo''))])
   \<and> dict_index (Some (String ''bee'')) [(Some (String ''cow''), Some (String ''moo''))]
     = Inr ([(Some (String ''bee''), None), (Some (String ''cow''), Some (String ''moo''))], 0)"
proof -
  let ?items = "[(Some (String ''cow''), Some (String ''moo''))]"
  have h1: "dict_inv ?items" by (simp add: dict_inv_def)
  have h2: "wf_item (String ''bee'')" by simp
  have n: "\<not> (\<exists>e \<in> set ?items. \<exists>f. fst e = Some f \<and> compare f (String ''bee'') = 0)"
    by (simp add: compare_lex components_def)
  from index_inserts_has_key_does_not [OF h1 h2] n
  have hk: "has_key (Some (String ''bee'')) ?items = Inr (False, ?items)" by simp
  with index_inserts_has_key_does_not [OF h1 h2]
  obtain c p where "clone (String ''bee'') = Inr c"
    and d: "dict_index (Some (String ''bee'')) ?items
          = Inr (take p ?items @ [(Some c, None)] @ drop p ?items, p)"
    by blast
  moreover have "dict_index (Some (String ''bee'')) ?items
     = Inr ([(Some (String ''bee''), None), (Some (String ''cow''), Some (String ''moo''))], 0)"
    by (simp add: dict_index_def index_with_def dict_find_def compare_lex components_def)
  ultimately show ?thesis using hk by simp
qed

section \<open>Serializer and parser\<close>

text \<open>
  The overload \<open>itoa(value, base)\<close>, the one without a buffer parameter: it declares a
  local \<open>std::string buffer\<close>, fills it through \<open>itoa(value, buffer, base)\<close> and returns a
  reference to it. The local is destroyed when the function returns, so the caller holds
  a reference to a destroyed object and what it reads through it is undefined. The model
  makes that the error \<open>DanglingReference\<close>: the digits are computed into the local and
  do not reach the caller.
\<close>

datatype write_error = DanglingReference

definition itoa_reference :: "string \<Rightarrow> write_error + string" where
  "itoa_reference buffer = Inl DanglingReference"

text \<open>
  Two consecutive pieces of output: the bytes of the first followed by the bytes of the
  second, and no defined output once either has failed.
\<close>

fun followed_by :: "write_error + string \<Rightarrow> write_error + string \<Rightarrow> write_error + string" where
  "followed_by (Inl e) second = Inl e"
| "followed_by (Inr a) (Inl e) = Inl e"
| "followed_by (Inr a) (Inr b) = Inr (a @ b)"

text \<open>
  \<open>write\<close> of the four node classes; the result is the byte sequence that the calls
  append to the \<open>Output\<close>. \<open>String::write\<close> and \<open>Integer::write\<close> take their digits from
  \<open>itoa(_value.size())\<close> and \<open>itoa(_value)\<close>, calls with one argument, which only the
  overload without a buffer accepts. \<open>List::write\<close> and \<open>Dictionary::write\<close> write \<open>'l'\<close> or
  \<open>'d'\<close>, the slots in order and \<open>'e'\<close>; a \<open>NULL\<close> slot, also the \<open>first\<close> of a Dictionary
  element, is written as \<open>bencodeNULLEntry\<close>, \<open>"0:"\<close>.
\<close>

function (sequential) "write" :: "Item \<Rightarrow> write_error + string"
  and write_list :: "Item option list \<Rightarrow> write_error + string"
  and write_dict :: "Element list \<Rightarrow> write_error + string"
where
  "write (String v) =
     followed_by (itoa_reference (itoa_size (length v) []))
       (followed_by (Inr '':'') (Inr v))"
| "write (Integer v) =
     followed_by (Inr ''i'')
       (followed_by (itoa_reference (itoa_intmax v [])) (Inr ''e''))"
| "write (List items) = followed_by (Inr ''l'') (followed_by (write_list items) (Inr ''e''))"
| "write (Dictionary items) = followed_by (Inr ''d'') (followed_by (write_dict items) (Inr ''e''))"
| "write_list [] = Inr []"
| "write_list (None # items) = followed_by (Inr ''0:'') (write_list items)"
| "write_list (Some item # items) = followed_by (write item) (write_list items)"
| "write_dict [] = Inr []"
| "write_dict ((first, second) # items) =
     followed_by (case first of None \<Rightarrow> Inr ''0:'' | Some k \<Rightarrow> write k)
       (followed_by (case second of None \<Rightarrow> Inr ''0:'' | Some v \<Rightarrow> write v)
          (write_dict items))"
  by pat_completeness auto
termination
  by (relation "measure (case_sum size (case_sum (size_list (size_option size))
        (size_list (size_prod (size_option size) (size_option size)))))") auto

text \<open>
  Modelled from the spec: \<open>strtoimax\<close> is the C library function of \<open><inttypes.h>\<close>; the
  header calls it and does not define it. The specification says of it that the text is
  "parsed as signed decimal text (sign and magnitude)" and leaves overflow to "the chosen
  integer parser's overflow behavior", which for \<open>strtoimax\<close> is saturation. The model
  reads the C string (up to the first NUL byte), skips white space, takes an optional
  sign and the longest run of decimal digits (none gives 0), and saturates at
  \<open>INTMAX_MAX\<close> and \<open>INTMAX_MIN\<close>.
\<close>

definition isspace :: "char \<Rightarrow> bool" where
  "isspace c \<longleftrightarrow> c \<in> {CHR '' '', CHR 0x09, CHR 0x0A, CHR 0x0B, CHR 0x0C, CHR 0x0D}"

definition isdigit :: "char \<Rightarrow> bool" where
  "isdigit c \<longleftrightarrow> (48 :: nat) \<le> of_char c \<and> (of_char c :: nat) \<le> 57"

fun digits_value :: "nat \<Rightarrow> string \<Rightarrow> nat" where
  "digits_value acc [] = acc"
| "digits_value acc (c # cs) =
     (if isdigit c then digits_value (acc * 10 + (of_char c - 48)) cs else acc)"

definition INTMAX_MAX :: "64 word" where
  "INTMAX_MAX = 0x7FFFFFFFFFFFFFFF"

definition INTMAX_MIN :: "64 word" where
  "INTMAX_MIN = 0x8000000000000000"

definition strtoimax :: "string \<Rightarrow> 64 word" where
  "strtoimax nptr =
     (let s = dropWhile isspace (takeWhile (\<lambda>c. c \<noteq> CHR 0x00) nptr);
          negative = (case s of c # cs \<Rightarrow> c = CHR ''-'' | [] \<Rightarrow> False);
          s' = (case s of c # cs \<Rightarrow> if c = CHR ''-'' \<or> c = CHR ''+'' then cs else s | [] \<Rightarrow> []);
          n = digits_value 0 s'
      in if negative
         then (if n > 2 ^ 63 then INTMAX_MIN else - word_of_nat n)
         else (if n > 2 ^ 63 - 1 then INTMAX_MAX else word_of_nat n))"

text \<open>
  \<open>ReferencedStringInput\<close>: the buffer and the position to read from next. \<open>read()\<close> returns
  the byte at the position and advances, or returns NUL without advancing when the
  position is at the end. \<open>read(bytes, storage)\<close> returns up to \<open>bytes\<close> bytes.
\<close>

record ReferencedStringInput =
  input_buffer :: string
  input_position :: nat

definition read_byte :: "ReferencedStringInput \<Rightarrow> char \<times> ReferencedStringInput" where
  "read_byte inp =
     (if input_position inp < length (input_buffer inp)
      then (input_buffer inp ! input_position inp, inp\<lparr>input_position := input_position inp + 1\<rparr>)
      else (CHR 0x00, inp))"

definition read_bytes :: "nat \<Rightarrow> ReferencedStringInput \<Rightarrow> string \<times> ReferencedStringInput" where
  "read_bytes bytes inp =
     (if input_position inp < length (input_buffer inp)
      then (let bytes' = (if input_position inp + bytes < length (input_buffer inp)
                          then bytes
                          else length (input_buffer inp) - input_position inp)
            in (take bytes' (drop (input_position inp) (input_buffer inp)),
                inp\<lparr>input_position := input_position inp + bytes'\<rparr>))
      else ([], inp))"

text \<open>
  \<open>Item::_read\<close>. The function calls itself from inside its loops, so the model is one
  recursive function over the points of \<open>_read\<close> at which control can stand: \<open>Read type\<close>
  is the entry with the type byte, \<open>IntegerLoop buffer\<close> the head of the \<open>while\<close> loop of
  case \<open>'i'\<close>, \<open>StringLoop byte buffer\<close> the head of the \<open>do\<close> loop of the digit cases,
  \<open>ListLoop items\<close> and \<open>DictionaryLoop items\<close> the heads of the loops of cases \<open>'l'\<close>
  and \<open>'d'\<close> with the elements the result holds so far. Each continues to the \<open>return\<close>.
  The \<open>buffer\<close> argument of \<open>_read\<close> is cleared before each use, so it is local here.
  The test \<open>(byte < '0') || (byte > '9')\<close> is \<open>\<not> isdigit byte\<close> whether \<open>char\<close> is signed or
  not: a byte above 127 fails one comparison or the other.

  The function returns \<open>None\<close> when \<open>_read\<close> does not return. Otherwise the outcome is
  the returned pointer and the input, or \<open>Crashed\<close> when \<open>operator[]\<close> dereferenced
  \<open>NULL\<close>. The third component lists the nodes that \<open>_read\<close> created with \<open>new\<close>, never
  deleted and did not hand to its caller: \<open>result->as<Dictionary>()[key]= value\<close> stores
  \<open>key->clone()\<close> in the Dictionary and drops the pointer \<open>key\<close>.
\<close>

datatype call =
    Read char
  | IntegerLoop string
  | StringLoop char string
  | ListLoop "Item option list"
  | DictionaryLoop "Element list"

datatype outcome =
    Crashed error
  | Returned "Item option" ReferencedStringInput "Item list"

partial_function (option) run :: "call \<Rightarrow> ReferencedStringInput \<Rightarrow> Item list \<Rightarrow> outcome option" where
  "run c inp lost =
     (case c of
        Read type \<Rightarrow>
          if type = CHR ''i'' then run (IntegerLoop []) inp lost
          else if isdigit type then run (StringLoop type []) inp lost
          else if type = CHR ''l'' then run (ListLoop []) inp lost
          else if type = CHR ''d'' then run (DictionaryLoop []) inp lost
          else Some (Returned None inp lost)
      | IntegerLoop buffer \<Rightarrow>
          (case read_byte inp of (byte, inp') \<Rightarrow>
             if byte \<noteq> CHR ''e'' then run (IntegerLoop (buffer @ [byte])) inp' lost
             else Some (Returned (Some (Integer (strtoimax buffer))) inp' lost))
      | StringLoop byte buffer \<Rightarrow>
          if \<not> isdigit byte then Some (Returned None inp lost)
          else (case read_byte inp of (byte', inp') \<Rightarrow>
                  if byte' \<noteq> CHR '':'' then run (StringLoop byte' (buffer @ [byte])) inp' lost
                  else (case read_bytes (unat (strtoimax (buffer @ [byte]))) inp' of (s, inp'') \<Rightarrow>
                          Some (Returned (Some (String s)) inp'' lost)))
      | ListLoop items \<Rightarrow>
          (case read_byte inp of (byte, inp') \<Rightarrow>
             if byte \<noteq> CHR ''e''
             then Option.bind (run (Read byte) inp' lost) (\<lambda>r.
                    case r of
                      Crashed e \<Rightarrow> Some (Crashed e)
                    | Returned None inp'' lost' \<Rightarrow> Some (Returned None inp'' lost')
                    | Returned (Some item) inp'' lost' \<Rightarrow>
                        run (ListLoop (items @ [Some item])) inp'' lost')
             else Some (Returned (Some (List items)) inp' lost))
      | DictionaryLoop items \<Rightarrow>
          (case read_byte inp of (byte, inp1) \<Rightarrow>
             if byte \<noteq> CHR ''e''
             then Option.bind (run (Read byte) inp1 lost) (\<lambda>rk.
                    case rk of
                      Crashed e \<Rightarrow> Some (Crashed e)
                    | Returned key inp2 lost2 \<Rightarrow>
                        (case read_byte inp2 of (byte2, inp3) \<Rightarrow>
                           Option.bind (run (Read byte2) inp3 lost2) (\<lambda>rv.
                             case rv of
                               Crashed e \<Rightarrow> Some (Crashed e)
                             | Returned v inp4 lost4 \<Rightarrow>
                                 if key = None \<or> v = None then Some (Returned None inp4 lost4)
                                 else (case dict_index key items of
                                         Inl e \<Rightarrow> Some (Crashed e)
                                       | Inr (items', position) \<Rightarrow>
                                           run (DictionaryLoop (assign_ptr items' position v))
                                             inp4 (lost4 @ [the key])))))
             else Some (Returned (Some (Dictionary items)) inp1 lost)))"

text \<open>\<open>Item::read\<close>, and \<open>decode\<close>: \<open>Item::read\<close> on a \<open>ReferencedStringInput\<close> over the bytes.\<close>

definition Item_read :: "ReferencedStringInput \<Rightarrow> outcome option" where
  "Item_read inp = (case read_byte inp of (type, inp') \<Rightarrow> run (Read type) inp' [])"

definition decode :: "string \<Rightarrow> outcome option" where
  "decode w = Item_read \<lparr>input_buffer = w, input_position = 0\<rparr>"

lemma run_Read:
  "run (Read type) inp lost =
     (if type = CHR ''i'' then run (IntegerLoop []) inp lost
      else if isdigit type then run (StringLoop type []) inp lost
      else if type = CHR ''l'' then run (ListLoop []) inp lost
      else if type = CHR ''d'' then run (DictionaryLoop []) inp lost
      else Some (Returned None inp lost))"
  by (subst run.simps) simp

lemma run_IntegerLoop:
  "run (IntegerLoop buffer) inp lost =
     (case read_byte inp of (byte, inp') \<Rightarrow>
        if byte \<noteq> CHR ''e'' then run (IntegerLoop (buffer @ [byte])) inp' lost
        else Some (Returned (Some (Integer (strtoimax buffer))) inp' lost))"
  by (subst run.simps) simp

lemma run_StringLoop:
  "run (StringLoop byte buffer) inp lost =
     (if \<not> isdigit byte then Some (Returned None inp lost)
      else (case read_byte inp of (byte', inp') \<Rightarrow>
              if byte' \<noteq> CHR '':'' then run (StringLoop byte' (buffer @ [byte])) inp' lost
              else (case read_bytes (unat (strtoimax (buffer @ [byte]))) inp' of (s, inp'') \<Rightarrow>
                      Some (Returned (Some (String s)) inp'' lost))))"
  by (subst run.simps) simp

lemma run_ListLoop:
  "run (ListLoop items) inp lost =
     (case read_byte inp of (byte, inp') \<Rightarrow>
        if byte \<noteq> CHR ''e''
        then Option.bind (run (Read byte) inp' lost) (\<lambda>r.
               case r of
                 Crashed e \<Rightarrow> Some (Crashed e)
               | Returned None inp'' lost' \<Rightarrow> Some (Returned None inp'' lost')
               | Returned (Some item) inp'' lost' \<Rightarrow>
                   run (ListLoop (items @ [Some item])) inp'' lost')
        else Some (Returned (Some (List items)) inp' lost))"
  by (subst run.simps) simp

lemma run_DictionaryLoop:
  "run (DictionaryLoop items) inp lost =
     (case read_byte inp of (byte, inp1) \<Rightarrow>
        if byte \<noteq> CHR ''e''
        then Option.bind (run (Read byte) inp1 lost) (\<lambda>rk.
               case rk of
                 Crashed e \<Rightarrow> Some (Crashed e)
               | Returned key inp2 lost2 \<Rightarrow>
                   (case read_byte inp2 of (byte2, inp3) \<Rightarrow>
                      Option.bind (run (Read byte2) inp3 lost2) (\<lambda>rv.
                        case rv of
                          Crashed e \<Rightarrow> Some (Crashed e)
                        | Returned v inp4 lost4 \<Rightarrow>
                            if key = None \<or> v = None then Some (Returned None inp4 lost4)
                            else (case dict_index key items of
                                    Inl e \<Rightarrow> Some (Crashed e)
                                  | Inr (items', position) \<Rightarrow>
                                      run (DictionaryLoop (assign_ptr items' position v))
                                        inp4 (lost4 @ [the key])))))
        else Some (Returned (Some (Dictionary items)) inp1 lost))"
  by (subst run.simps) simp

lemmas run_eqs = run_Read run_IntegerLoop run_StringLoop run_ListLoop run_DictionaryLoop

lemmas eval_defs = decode_def Item_read_def read_byte_def read_bytes_def isdigit_def
  strtoimax_def isspace_def INTMAX_MAX_def INTMAX_MIN_def
  dict_index_def index_with_def dict_find_def assign_ptr_def
  compare_lex components_def itoa_intmax_def itoa_size_def itoa_loop.simps
  itoa_reference_def Let_def
  signed_divide_int_def signed_modulo_int_def

subsection \<open>Reading from the input\<close>

text \<open>The bytes not read yet, and the input after \<open>n\<close> more bytes have been read.\<close>

definition remaining :: "ReferencedStringInput \<Rightarrow> string" where
  "remaining inp = drop (input_position inp) (input_buffer inp)"

definition advance :: "nat \<Rightarrow> ReferencedStringInput \<Rightarrow> ReferencedStringInput" where
  "advance n inp = inp\<lparr>input_position := input_position inp + n\<rparr>"

lemma advance_0 [simp]: "advance 0 inp = inp"
  by (simp add: advance_def)

lemma advance_advance [simp]: "advance m (advance n inp) = advance (n + m) inp"
  by (simp add: advance_def add.assoc)

lemma remaining_advance [simp]: "remaining (advance n inp) = drop n (remaining inp)"
  by (simp add: remaining_def advance_def add.commute)

lemma read_byte_Cons:
  assumes "remaining inp = c # r"
  shows "read_byte inp = (c, advance 1 inp)"
proof -
  from assms have "input_position inp < length (input_buffer inp)"
    by (metis remaining_def drop_eq_Nil list.distinct(1) not_le)
  moreover from this assms have "input_buffer inp ! input_position inp = c"
    by (metis remaining_def hd_drop_conv_nth list.sel(1))
  ultimately show ?thesis by (simp add: read_byte_def advance_def)
qed

lemma read_byte_Nil:
  assumes "remaining inp = []"
  shows "read_byte inp = (CHR 0x00, inp)"
  using assms by (simp add: read_byte_def remaining_def)

lemma read_bytes_exact:
  assumes "remaining inp = v @ r"
  shows "read_bytes (length v) inp = (v, advance (length v) inp)"
proof (cases "input_position inp < length (input_buffer inp)")
  case True
  have len: "length (input_buffer inp) - input_position inp = length v + length r"
    using assms by (metis remaining_def length_drop length_append)
  show ?thesis
  proof (cases "r = []")
    case True
    with len assms \<open>input_position inp < length (input_buffer inp)\<close> show ?thesis
      by (simp add: read_bytes_def remaining_def advance_def)
  next
    case False
    with len have "input_position inp + length v < length (input_buffer inp)" by (cases r) simp_all
    with assms True show ?thesis
      by (simp add: read_bytes_def remaining_def advance_def)
  qed
next
  case False
  with assms have "v = []" by (simp add: remaining_def)
  with False show ?thesis by (simp add: read_bytes_def)
qed

subsection \<open>The integer loop\<close>

text \<open>
  The loop of case \<open>'i'\<close> returns when an \<open>'e'\<close> is still to come, and does not return when
  there is none: at the end of the buffer \<open>read()\<close> keeps returning NUL.
\<close>

lemma IntegerLoop_returns:
  assumes "remaining inp = s @ CHR ''e'' # r" and "CHR ''e'' \<notin> set s"
  shows "run (IntegerLoop b) inp lost =
     Some (Returned (Some (Integer (strtoimax (b @ s)))) (advance (length s + 1) inp) lost)"
  using assms
proof (induction s arbitrary: b inp)
  case Nil
  then show ?case by (simp add: run_IntegerLoop read_byte_Cons)
next
  case (Cons c s)
  from Cons.prems have rb: "read_byte inp = (c, advance 1 inp)" by (simp add: read_byte_Cons)
  from Cons.prems have "remaining (advance 1 inp) = s @ CHR ''e'' # r" by simp
  from Cons.IH [OF this, of "b @ [c]"] Cons.prems(2)
  have ih: "run (IntegerLoop (b @ [c])) (advance 1 inp) lost =
     Some (Returned (Some (Integer (strtoimax (b @ c # s)))) (advance (length (c # s) + 1) inp) lost)"
    by simp
  from Cons.prems(2) have "c \<noteq> CHR ''e''" by auto
  with rb have "run (IntegerLoop b) inp lost = run (IntegerLoop (b @ [c])) (advance 1 inp) lost"
    by (subst run_IntegerLoop) simp
  with ih show ?case by simp
qed

lemma IntegerLoop_diverges:
  assumes "CHR ''e'' \<notin> set (remaining inp)"
  shows "run (IntegerLoop b) inp lost = None"
proof (rule ccontr)
  assume "run (IntegerLoop b) inp lost \<noteq> None"
  then obtain y where y: "run (IntegerLoop b) inp lost = Some y" by auto
  have "\<And>c inp lost y. run c inp lost = Some y \<Longrightarrow>
          \<not> (\<exists>b. c = IntegerLoop b \<and> CHR ''e'' \<notin> set (remaining inp))"
  proof -
    fix c inp lost y
    assume "run c inp lost = Some y"
    then show "\<not> (\<exists>b. c = IntegerLoop b \<and> CHR ''e'' \<notin> set (remaining inp))"
    proof (induction rule: run.raw_induct [rotated 1, consumes 1])
      case (1 run' c inp lost y)
      show ?case
      proof
        assume "\<exists>b. c = IntegerLoop b \<and> CHR ''e'' \<notin> set (remaining inp)"
        then obtain b where c: "c = IntegerLoop b" and ne: "CHR ''e'' \<notin> set (remaining inp)" by blast
        show False
        proof (cases "remaining inp")
          case Nil
          with 1(2) c have "run' (IntegerLoop (b @ [CHR 0x00])) inp lost = Some y"
            by (simp add: read_byte_Nil)
          from 1(1) [OF this] ne show False by blast
        next
          case (Cons h t)
          with ne have h: "h \<noteq> CHR ''e''" and t: "CHR ''e'' \<notin> set (remaining (advance 1 inp))" by auto
          from 1(2) c Cons h have "run' (IntegerLoop (b @ [h])) (advance 1 inp) lost = Some y"
            by (simp add: read_byte_Cons)
          from 1(1) [OF this] t show False by blast
        qed
      qed
    qed
  qed
  from this [OF y] assms show False by blast
qed

text \<open>
  C8. On the two bytes \<open>"i3"\<close> the source ends before an \<open>'e'\<close>; \<open>Item::read\<close> does not return
  (the model's value for that is \<open>None\<close>), so it does not report a decode failure.
\<close>

theorem decode_i3_does_not_return: "decode ''i3'' = None"
proof -
  have "CHR ''e'' \<notin> set (remaining \<lparr>input_buffer = ''i3'', input_position = 1\<rparr>)"
    by (simp add: remaining_def)
  then show ?thesis
    by (simp add: decode_def Item_read_def read_byte_def run_Read IntegerLoop_diverges)
qed

subsection \<open>strtoimax on decimal text\<close>

lemma isdigit_not_special:
  assumes "isdigit c"
  shows "c \<noteq> CHR ''e''" "c \<noteq> CHR 0x00" "\<not> isspace c" "c \<noteq> CHR ''-''" "c \<noteq> CHR ''+''"
    "c \<noteq> CHR '':''"
  using assms by (auto simp: isdigit_def isspace_def)

lemma takeWhile_digits:
  "\<forall>c \<in> set ds. isdigit c \<Longrightarrow> takeWhile (\<lambda>c. c \<noteq> CHR 0x00) ds = ds"
  by (simp add: takeWhile_eq_all_conv isdigit_not_special)

lemma takeWhile_neg_digits:
  "\<forall>c \<in> set ds. isdigit c \<Longrightarrow> takeWhile (\<lambda>c. c \<noteq> CHR 0x00) (CHR ''-'' # ds) = CHR ''-'' # ds"
  by (simp add: takeWhile_eq_all_conv isdigit_not_special)

lemma strtoimax_digits:
  assumes "\<forall>c \<in> set ds. isdigit c"
  shows "strtoimax ds =
     (if digits_value 0 ds > 2 ^ 63 - 1 then INTMAX_MAX else word_of_nat (digits_value 0 ds))"
proof (cases ds)
  case Nil
  then show ?thesis by (simp add: strtoimax_def)
next
  case (Cons c cs)
  with assms have "isdigit c" by simp
  have tw: "takeWhile (\<lambda>c. c \<noteq> CHR 0x00) (c # cs) = c # cs"
    using takeWhile_digits [OF assms] Cons by (simp only:)
  from \<open>isdigit c\<close> show ?thesis
    unfolding strtoimax_def Cons tw by (simp add: isdigit_not_special Let_def)
qed

lemma strtoimax_neg_digits:
  assumes "\<forall>c \<in> set ds. isdigit c"
  shows "strtoimax (CHR ''-'' # ds) =
     (if digits_value 0 ds > 2 ^ 63 then INTMAX_MIN else - word_of_nat (digits_value 0 ds))"
  unfolding strtoimax_def takeWhile_neg_digits [OF assms]
  by (simp add: isspace_def Let_def)

text \<open>
  C10. An integer literal whose digits denote more than \<open>INTMAX_MAX\<close> decodes to the
  Integer \<open>INTMAX_MAX\<close>, and one with a minus sign whose digits denote more than
  \<open>2 ^ 63\<close> decodes to \<open>INTMAX_MIN\<close>; the two bounds are \<open>2 ^ 63 - 1\<close> and \<open>- 2 ^ 63\<close>.
  \<open>decode\<close> is a function of the bytes, so equal inputs give equal nodes.
\<close>

theorem integer_literal_saturates:
  assumes "\<forall>c \<in> set ds. isdigit c"
  shows "(digits_value 0 ds > 2 ^ 63 - 1 \<longrightarrow>
           decode (''i'' @ ds @ ''e'') =
             Some (Returned (Some (Integer INTMAX_MAX))
                    \<lparr>input_buffer = ''i'' @ ds @ ''e'', input_position = length ds + 2\<rparr> []))
      \<and> (digits_value 0 ds > 2 ^ 63 \<longrightarrow>
           decode (''i-'' @ ds @ ''e'') =
             Some (Returned (Some (Integer INTMAX_MIN))
                    \<lparr>input_buffer = ''i-'' @ ds @ ''e'', input_position = length ds + 3\<rparr> []))
      \<and> sint INTMAX_MAX = 2 ^ 63 - 1 \<and> sint INTMAX_MIN = - (2 ^ 63)"
proof (intro conjI impI)
  from assms have ne: "CHR ''e'' \<notin> set ds" using isdigit_not_special(1) by blast
  let ?inp = "\<lparr>input_buffer = ''i'' @ ds @ ''e'', input_position = 1\<rparr>"
  have r: "remaining ?inp = ds @ CHR ''e'' # []" by (simp add: remaining_def)
  assume big: "digits_value 0 ds > 2 ^ 63 - 1"
  from IntegerLoop_returns [OF r ne, of "[]" "[]"] big
  show "decode (''i'' @ ds @ ''e'') =
             Some (Returned (Some (Integer INTMAX_MAX))
                    \<lparr>input_buffer = ''i'' @ ds @ ''e'', input_position = length ds + 2\<rparr> [])"
    by (simp add: decode_def Item_read_def read_byte_def run_Read strtoimax_digits [OF assms]
        advance_def)
next
  from assms have ne: "CHR ''e'' \<notin> set (CHR ''-'' # ds)" using isdigit_not_special(1) by auto
  let ?inp = "\<lparr>input_buffer = ''i-'' @ ds @ ''e'', input_position = 1\<rparr>"
  have r: "remaining ?inp = (CHR ''-'' # ds) @ CHR ''e'' # []" by (simp add: remaining_def)
  assume big: "digits_value 0 ds > 2 ^ 63"
  from IntegerLoop_returns [OF r ne, of "[]" "[]"] big
  show "decode (''i-'' @ ds @ ''e'') =
             Some (Returned (Some (Integer INTMAX_MIN))
                    \<lparr>input_buffer = ''i-'' @ ds @ ''e'', input_position = length ds + 3\<rparr> [])"
    by (simp add: decode_def Item_read_def read_byte_def run_Read strtoimax_neg_digits [OF assms]
        advance_def)
next
  show "sint INTMAX_MAX = 2 ^ 63 - 1" by (simp add: INTMAX_MAX_def)
  show "sint INTMAX_MIN = - (2 ^ 63)" by (simp add: INTMAX_MIN_def)
qed

theorem integer_literal_saturates_witness:
  "decode ''i9223372036854775808e'' =
     Some (Returned (Some (Integer INTMAX_MAX))
            \<lparr>input_buffer = ''i9223372036854775808e'', input_position = 21\<rparr> [])
   \<and> decode ''i-9223372036854775809e'' =
     Some (Returned (Some (Integer INTMAX_MIN))
            \<lparr>input_buffer = ''i-9223372036854775809e'', input_position = 22\<rparr> [])"
proof -
  have h1: "\<forall>c \<in> set ''9223372036854775808''. isdigit c" by (simp add: isdigit_def)
  have h2: "\<forall>c \<in> set ''9223372036854775809''. isdigit c" by (simp add: isdigit_def)
  have v1: "digits_value 0 ''9223372036854775808'' > 2 ^ 63 - 1" by (simp add: isdigit_def)
  have v2: "digits_value 0 ''9223372036854775809'' > 2 ^ 63" by (simp add: isdigit_def)
  from integer_literal_saturates [OF h1] v1 integer_literal_saturates [OF h2] v2
  show ?thesis by simp
qed

subsection \<open>Decoding what was encoded\<close>



lemma StringLoop_returns:
  assumes "remaining inp = ds @ CHR '':'' # v @ r" and "isdigit c" and "\<forall>d \<in> set ds. isdigit d"
    and "unat (strtoimax (b @ c # ds)) = length v"
  shows "run (StringLoop c b) inp lost =
     Some (Returned (Some (String v)) (advance (length ds + 1 + length v) inp) lost)"
  using assms
proof (induction ds arbitrary: b c inp)
  case Nil
  from Nil(1) have rb: "read_byte inp = (CHR '':'', advance 1 inp)" by (simp add: read_byte_Cons)
  from Nil(1) have "remaining (advance 1 inp) = v @ r" by simp
  then have "read_bytes (length v) (advance 1 inp) = (v, advance (length v) (advance 1 inp))"
    by (rule read_bytes_exact)
  with rb Nil(2,4) show ?case by (subst run_StringLoop) simp
next
  case (Cons d ds)
  from Cons.prems(1) have rb: "read_byte inp = (d, advance 1 inp)" by (simp add: read_byte_Cons)
  from Cons.prems(3) have d: "isdigit d" and ds: "\<forall>d \<in> set ds. isdigit d" by simp_all
  from d have "d \<noteq> CHR '':''" by (rule isdigit_not_special)
  with rb Cons.prems(2)
  have step: "run (StringLoop c b) inp lost = run (StringLoop d (b @ [c])) (advance 1 inp) lost"
    by (subst run_StringLoop) simp
  from Cons.prems(1) have "remaining (advance 1 inp) = ds @ CHR '':'' # v @ r" by simp
  from Cons.IH [OF this d ds, of "b @ [c]"] Cons.prems(4)
  have "run (StringLoop d (b @ [c])) (advance 1 inp) lost =
     Some (Returned (Some (String v)) (advance (length ds + 1 + length v) (advance 1 inp)) lost)"
    by simp
  with step show ?case by (simp add: add.commute add.left_commute)
qed




text \<open>
  The serialisation of a String and of an Integer is never defined: both go through the
  reference that \<open>itoa\<close> returns to its destroyed local.
\<close>

lemma write_text_node:
  "write (String v) = Inl DanglingReference"
  "write (Integer i) = Inl DanglingReference"
  by (simp_all add: itoa_reference_def)







lemma write_list_append:
  "write_list (xs @ ys) = followed_by (write_list xs) (write_list ys)"
proof (induction xs)
  case Nil
  then show ?case by (cases "write_list ys") simp_all
next
  case (Cons a xs)
  then show ?case
    by (cases a; cases "write_list xs"; cases "write_list ys"; cases "write (the a)") simp_all
qed

lemma write_dict_append:
  "write_dict (xs @ ys) = followed_by (write_dict xs) (write_dict ys)"
proof (induction xs)
  case Nil
  then show ?case by (cases "write_dict ys") simp_all
next
  case (Cons a xs)
  obtain first second where a: "a = (first, second)" by (cases a)
  show ?case
    unfolding a using Cons
    by (cases "case first of None \<Rightarrow> Inr ''0:'' | Some k \<Rightarrow> write k";
        cases "case second of None \<Rightarrow> Inr ''0:'' | Some v \<Rightarrow> write v";
        cases "write_dict xs"; cases "write_dict ys") simp_all
qed

section \<open>Properties of the codec\<close>




text \<open>
  C9 (as amended). A null slot of a List, and a null key or a null value of a Dictionary
  element, is written as the two bytes \<open>"0:"\<close> at its place between the bytes of the
  neighbouring slots, whenever the serialisation of those neighbours is defined (by
  \<open>write_defined\<close>: whenever they hold no String and no Integer). Read back as an element,
  the bytes \<open>"0:"\<close> give an empty String node, not a null slot.
\<close>

theorem null_slot_wire_form:
  "(write_list xs = Inr a \<and> write_list ys = Inr b \<longrightarrow>
      write (List (xs @ None # ys)) = Inr (''l'' @ a @ ''0:'' @ b @ ''e''))
   \<and> (write_dict ds = Inr a' \<and> write_dict es = Inr b' \<longrightarrow>
        write (Dictionary (ds @ (None, None) # es)) = Inr (''d'' @ a' @ ''0:'' @ ''0:'' @ b' @ ''e'')
        \<and> (write k = Inr c \<longrightarrow>
             write (Dictionary (ds @ (Some k, None) # es)) = Inr (''d'' @ a' @ c @ ''0:'' @ b' @ ''e'')
             \<and> write (Dictionary (ds @ (None, Some k) # es)) = Inr (''d'' @ a' @ ''0:'' @ c @ b' @ ''e'')))
   \<and> (remaining inp = CHR '':'' # r \<longrightarrow>
        run (Read (CHR ''0'')) inp lost = Some (Returned (Some (String [])) (advance 1 inp) lost))"
proof (intro conjI impI; (elim conjE)?)
  show "write (List (xs @ None # ys)) = Inr (''l'' @ a @ ''0:'' @ b @ ''e'')"
    if "write_list xs = Inr a" "write_list ys = Inr b"
    using that by (simp add: write_list_append)
  show "write (Dictionary (ds @ (None, None) # es)) = Inr (''d'' @ a' @ ''0:'' @ ''0:'' @ b' @ ''e'')"
    if "write_dict ds = Inr a'" "write_dict es = Inr b'"
    using that by (simp add: write_dict_append)
  show "write (Dictionary (ds @ (Some k, None) # es)) = Inr (''d'' @ a' @ c @ ''0:'' @ b' @ ''e'')"
    if "write_dict ds = Inr a'" "write_dict es = Inr b'" "write k = Inr c"
    using that by (simp add: write_dict_append)
  show "write (Dictionary (ds @ (None, Some k) # es)) = Inr (''d'' @ a' @ ''0:'' @ c @ b' @ ''e'')"
    if "write_dict ds = Inr a'" "write_dict es = Inr b'" "write k = Inr c"
    using that by (simp add: write_dict_append)
  assume rem: "remaining inp = CHR '':'' # r"
  have d: "isdigit (CHR ''0'')" by (simp add: isdigit_def)
  have u: "unat (strtoimax ([] @ CHR ''0'' # [])) = length ([] :: string)"
    by (simp add: strtoimax_def isspace_def isdigit_def)
  from rem have "remaining inp = [] @ CHR '':'' # [] @ r" by simp
  from StringLoop_returns [OF this d _ u, of lost] d
  show "run (Read (CHR ''0'')) inp lost = Some (Returned (Some (String [])) (advance 1 inp) lost)"
    by (simp add: run_Read)
qed

theorem null_slot_wire_form_witness:
  "write_list [Some (List [])] = Inr ''le'' \<and> write_list [None] = Inr ''0:''
   \<and> write (List ([Some (List [])] @ None # [None])) = Inr ''lle0:0:e''
   \<and> write_dict [(Some (List []), Some (Dictionary []))] = Inr ''lede'' \<and> write_dict [] = Inr []
   \<and> write (Dictionary ([(Some (List []), Some (Dictionary []))] @ (None, None) # [])) = Inr ''dlede0:0:e''
   \<and> write (Dictionary []) = Inr ''de''
   \<and> write (Dictionary ([(Some (List []), Some (Dictionary []))] @ (Some (Dictionary []), None) # []))
       = Inr ''dledede0:e''
   \<and> write (Dictionary ([(Some (List []), Some (Dictionary []))] @ (None, Some (Dictionary [])) # []))
       = Inr ''dlede0:dee''
   \<and> remaining \<lparr>input_buffer = ''l0:e'', input_position = 2\<rparr> = CHR '':'' # ''e''
   \<and> run (Read (CHR ''0'')) \<lparr>input_buffer = ''l0:e'', input_position = 2\<rparr> []
      = Some (Returned (Some (String [])) \<lparr>input_buffer = ''l0:e'', input_position = 3\<rparr> [])"
proof -
  have h: "remaining \<lparr>input_buffer = ''l0:e'', input_position = 2\<rparr> = CHR '':'' # ''e''"
    by (simp add: remaining_def)
  have w: "write_list [Some (List [])] = Inr ''le''" "write_list [None] = Inr ''0:''"
    "write_dict [(Some (List []), Some (Dictionary []))] = Inr ''lede''" "write_dict [] = Inr []"
    "write (Dictionary []) = Inr ''de''"
    by simp_all
  from null_slot_wire_form [of "[Some (List [])]" "''le''" "[None]" "''0:''"
      "[(Some (List []), Some (Dictionary []))]" "''lede''" "[]" "[]" "Dictionary []" "''de''"
      "\<lparr>input_buffer = ''l0:e'', input_position = 2\<rparr>" "''e''" "[]"] h w
  show ?thesis by (simp add: advance_def)
qed

text \<open>
  The second half of the claim as stated fails: the List with one null slot is written as
  \<open>"l0:e"\<close>, and the element \<open>"0:"\<close> is decoded as an empty String.
\<close>

theorem null_slot_decode_counterexample:
  "write (List [None]) = Inr ''l0:e''
   \<and> decode ''l0:e'' =
      Some (Returned (Some (List [Some (String [])]))
             \<lparr>input_buffer = ''l0:e'', input_position = 4\<rparr> [])
   \<and> List [Some (String [])] \<noteq> List [None]"
  by (simp add: run_eqs eval_defs)

text \<open>
  C7. On \<open>"d1:a1:bXe"\<close> the second key fails to parse and \<open>Item::read\<close> returns no node. The
  String \<open>"a"\<close> that \<open>_read\<close> created for the first key is in the list of nodes that were
  never deleted: the Dictionary that \<open>delete result\<close> destroys owned a clone of it.
\<close>

theorem failed_decode_leaves_key: 
  "decode ''d1:a1:bXe'' =
     Some (Returned None \<lparr>input_buffer = ''d1:a1:bXe'', input_position = 9\<rparr> [String ''a''])"
  by (simp add: run_eqs eval_defs)

text \<open>
  C2. Decoding \<open>"d4:eggs4:spam3:cow3:mooe"\<close> returns the Dictionary with the pair of
  \<open>"cow"\<close> before the pair of \<open>"eggs"\<close>, as the claim says. Serialising that Dictionary does
  not yield \<open>"d3:cow3:moo4:eggs4:spame"\<close>: after the byte \<open>'d'\<close>, \<open>String::write\<close> of the key
  \<open>"cow"\<close> reads its length digits through the reference that \<open>itoa\<close> returned to a
  destroyed local, and the output is not defined from there on.
\<close>

theorem reencode_reads_destroyed_buffer:
  "decode ''d4:eggs4:spam3:cow3:mooe'' =
      Some (Returned (Some (Dictionary [(Some (String ''cow''), Some (String ''moo'')),
                                        (Some (String ''eggs''), Some (String ''spam''))]))
             \<lparr>input_buffer = ''d4:eggs4:spam3:cow3:mooe'', input_position = 24\<rparr>
             [String ''eggs'', String ''cow''])
   \<and> write (Dictionary [(Some (String ''cow''), Some (String ''moo'')),
                        (Some (String ''eggs''), Some (String ''spam''))]) = Inl DanglingReference"
  by (simp add: run_eqs eval_defs)

end
